theory Spec2Isabelle
  imports Main
begin

section \<open>The data layer of the application (src/app.js, class DataLayer)\<close>

text \<open>
  The class \<^verbatim>\<open>DataLayer\<close> of \<^verbatim>\<open>src/app.js\<close> (lines 23 to 258) is a thin layer over the
  browser's IndexedDB. Its methods are embedded one by one further below. The part of
  IndexedDB that they call (object stores with in-line keys, a key generator, indexes,
  transactions that commit or abort) is the platform underneath the program; it is
  written out first, after the algorithms of the IndexedDB standard that the calls run.

  Numbers are integers here (floating point and \<^verbatim>\<open>NaN\<close> are left out), and dates and
  binary keys do not occur.
\<close>

subsection \<open>JavaScript values and IndexedDB keys\<close>

datatype jsval =
    JUndef
  | JNull
  | JBool bool
  | JNum int
  | JStr string
  | JArr "jsval list"
  | JObj "(string \<times> jsval) list"

text \<open>The truthiness test of \<^verbatim>\<open>!seeded\<close> (line 96).\<close>

fun truthy :: "jsval \<Rightarrow> bool" where
  "truthy JUndef = False"
| "truthy JNull = False"
| "truthy (JBool b) = b"
| "truthy (JNum n) = (n \<noteq> 0)"
| "truthy (JStr s) = (s \<noteq> [])"
| "truthy (JArr xs) = True"
| "truthy (JObj fs) = True"

text \<open>A value is a valid key when it is a number, a string or an array of valid keys.\<close>

fun valid_key :: "jsval \<Rightarrow> bool" where
  "valid_key (JNum n) = True"
| "valid_key (JStr s) = True"
| "valid_key (JArr xs) = (\<forall>x \<in> set xs. valid_key x)"
| "valid_key JUndef = False"
| "valid_key JNull = False"
| "valid_key (JBool b) = False"
| "valid_key (JObj fs) = False"

datatype ordering = Lt | Eq | Gt

fun compare_strings :: "string \<Rightarrow> string \<Rightarrow> ordering" where
  "compare_strings [] [] = Eq"
| "compare_strings [] (d # ds) = Lt"
| "compare_strings (c # cs) [] = Gt"
| "compare_strings (c # cs) (d # ds) =
     (if (of_char c :: nat) < of_char d then Lt
      else if (of_char c :: nat) > of_char d then Gt
      else compare_strings cs ds)"

text \<open>
  The standard's comparison of two keys: an array is greater than a string, a string is
  greater than a number; arrays compare element by element, the shorter first.
\<close>

fun key_rank :: "jsval \<Rightarrow> nat" where
  "key_rank (JNum n) = 0"
| "key_rank (JStr s) = 1"
| "key_rank (JArr xs) = 2"
| "key_rank v = 3"

fun compare_keys :: "jsval \<Rightarrow> jsval \<Rightarrow> ordering"
  and compare_key_lists :: "jsval list \<Rightarrow> jsval list \<Rightarrow> ordering" where
  "compare_keys (JNum a) (JNum b) = (if a < b then Lt else if b < a then Gt else Eq)"
| "compare_keys (JStr a) (JStr b) = compare_strings a b"
| "compare_keys (JArr as) (JArr bs) = compare_key_lists as bs"
| "compare_keys a b =
     (if key_rank a < key_rank b then Lt else if key_rank b < key_rank a then Gt else Eq)"
| "compare_key_lists [] [] = Eq"
| "compare_key_lists [] (b # bs) = Lt"
| "compare_key_lists (a # as) [] = Gt"
| "compare_key_lists (a # as) (b # bs) =
     (case compare_keys a b of Eq \<Rightarrow> compare_key_lists as bs | r \<Rightarrow> r)"

text \<open>
  Evaluating a key path that is one identifier: the value must be an object that owns
  the property, and the property must not be \<^verbatim>\<open>undefined\<close>.
\<close>

fun get_prop :: "string \<Rightarrow> jsval \<Rightarrow> jsval option" where
  "get_prop p (JObj fs) =
     (case map_of fs p of None \<Rightarrow> None | Some JUndef \<Rightarrow> None | Some v \<Rightarrow> Some v)"
| "get_prop p v = None"

datatype extracted = Failure | Invalid | Key jsval

text \<open>Keeps the first occurrence of each element, as the standard's multi-entry conversion does.\<close>

definition first_occurrences :: "'a list \<Rightarrow> 'a list" where
  "first_occurrences xs = rev (remdups (rev xs))"

definition convert_to_key :: "bool \<Rightarrow> jsval \<Rightarrow> extracted" where
  "convert_to_key multi v =
     (case v of
        JArr xs \<Rightarrow>
          (if multi then Key (JArr (first_occurrences (filter valid_key xs)))
           else if valid_key v then Key v else Invalid)
      | _ \<Rightarrow> if valid_key v then Key v else Invalid)"

definition extract_key :: "string \<Rightarrow> bool \<Rightarrow> jsval \<Rightarrow> extracted" where
  "extract_key path multi v =
     (case get_prop path v of None \<Rightarrow> Failure | Some r \<Rightarrow> convert_to_key multi r)"

text \<open>Injecting a generated key: the property is set on the stored clone.\<close>

fun inject_key :: "string \<Rightarrow> jsval \<Rightarrow> jsval \<Rightarrow> jsval" where
  "inject_key path k (JObj fs) = JObj (filter (\<lambda>f. fst f \<noteq> path) fs @ [(path, k)])"
| "inject_key path k v = v"

text \<open>
  A key can be injected into an object. (An array carrying extra properties cannot be
  written as a \<^typ>\<open>jsval\<close>; it is treated like a primitive.)
\<close>

fun injectable :: "jsval \<Rightarrow> bool" where
  "injectable (JObj fs) = True"
| "injectable v = False"


subsection \<open>Object stores\<close>

datatype jserror =
    DataError
  | ConstraintError
  | NotFoundError
  | InvalidStateError
  | ReadOnlyError
  | VersionError
  | QuotaExceededError
  | UnknownError
  | TypeError
  | NetworkError
  | SyntaxError

record index_def =
  ipath :: string
  multiEntry :: bool

text \<open>
  An object store with an in-line key path: its records are kept in ascending order of
  their keys; \<open>current\<close> is the current number of its key generator.
\<close>

record objstore =
  keyPath :: string
  autoIncrement :: bool
  current :: int
  indexes :: "(string \<times> index_def) list"
  records :: "(jsval \<times> jsval) list"

fun insert_sorted :: "jsval \<Rightarrow> jsval \<Rightarrow> (jsval \<times> jsval) list \<Rightarrow> (jsval \<times> jsval) list" where
  "insert_sorted k v [] = [(k, v)]"
| "insert_sorted k v (r # rs) =
     (if compare_keys k (fst r) = Gt then r # insert_sorted k v rs else (k, v) # r # rs)"

definition delete_record :: "jsval \<Rightarrow> (jsval \<times> jsval) list \<Rightarrow> (jsval \<times> jsval) list" where
  "delete_record k rs = filter (\<lambda>r. fst r \<noteq> k) rs"

text \<open>Storing a record removes the record that has the key, if any, and files the new one in key order.\<close>

definition store_record :: "jsval \<Rightarrow> jsval \<Rightarrow> (jsval \<times> jsval) list \<Rightarrow> (jsval \<times> jsval) list" where
  "store_record k v rs = insert_sorted k v (delete_record k rs)"

definition max_generated :: int where
  "max_generated = 2 ^ 53"

text \<open>An explicit numeric key at or above the generator's current number moves the generator past it.\<close>

definition bump_generator :: "jsval \<Rightarrow> objstore \<Rightarrow> objstore" where
  "bump_generator k os =
     (case k of
        JNum n \<Rightarrow>
          (if current os \<le> min n max_generated
           then os\<lparr>current := min n max_generated + 1\<rparr> else os)
      | _ \<Rightarrow> os)"

definition put_at :: "bool \<Rightarrow> jsval \<Rightarrow> jsval \<Rightarrow> objstore \<Rightarrow> jserror + objstore" where
  "put_at no_overwrite k v os =
     (if no_overwrite \<and> map_of (records os) k \<noteq> None then Inl ConstraintError
      else Inr (os\<lparr>records := store_record k v (records os)\<rparr>))"

text \<open>
  The write requests that the program issues: \<^verbatim>\<open>put(value)\<close>, \<^verbatim>\<open>add(value)\<close>,
  \<^verbatim>\<open>delete(key)\<close> and \<^verbatim>\<open>clear()\<close>.
\<close>

datatype wreq = WPut jsval | WAdd jsval | WDelete jsval | WClear

text \<open>
  What the call itself throws, before any request exists: \<^verbatim>\<open>DataError\<close> when the
  key path yields an invalid key, or yields nothing and no key can be generated and
  injected; \<^verbatim>\<open>delete\<close> needs a valid key.
\<close>

definition check_value :: "objstore \<Rightarrow> jsval \<Rightarrow> jserror option" where
  "check_value os v =
     (case extract_key (keyPath os) False v of
        Invalid \<Rightarrow> Some DataError
      | Key k \<Rightarrow> None
      | Failure \<Rightarrow> if autoIncrement os \<and> injectable v then None else Some DataError)"

fun precheck :: "objstore \<Rightarrow> wreq \<Rightarrow> jserror option" where
  "precheck os (WPut v) = check_value os v"
| "precheck os (WAdd v) = check_value os v"
| "precheck os (WDelete k) = (if valid_key k then None else Some DataError)"
| "precheck os WClear = None"

text \<open>
  What the request does when the transaction runs it: a missing key is generated
  (\<^verbatim>\<open>ConstraintError\<close> once the generator has passed \<open>2^53\<close>) and injected; \<^verbatim>\<open>add\<close>
  fails with \<^verbatim>\<open>ConstraintError\<close> on a key already present. (The two \<^verbatim>\<open>DataError\<close>
  cases repeat what the call has checked on the same value.)
\<close>

definition store_value :: "bool \<Rightarrow> jsval \<Rightarrow> objstore \<Rightarrow> jserror + objstore" where
  "store_value no_overwrite v os =
     (case extract_key (keyPath os) False v of
        Key k \<Rightarrow> put_at no_overwrite k v (if autoIncrement os then bump_generator k os else os)
      | Invalid \<Rightarrow> Inl DataError
      | Failure \<Rightarrow>
          (if \<not> autoIncrement os \<or> \<not> injectable v then Inl DataError
           else if max_generated < current os then Inl ConstraintError
           else put_at no_overwrite (JNum (current os))
                  (inject_key (keyPath os) (JNum (current os)) v)
                  (os\<lparr>current := current os + 1\<rparr>)))"

fun run :: "wreq \<Rightarrow> objstore \<Rightarrow> jserror + objstore" where
  "run (WPut v) os = store_value False v os"
| "run (WAdd v) os = store_value True v os"
| "run (WDelete k) os = Inr (os\<lparr>records := delete_record k (records os)\<rparr>)"
| "run WClear os = Inr (os\<lparr>records := []\<rparr>)"

subsection \<open>Reading: keys, key ranges and indexes\<close>

datatype keyrange = Unbounded | Only jsval

text \<open>
  Converting a query to a key range: \<^verbatim>\<open>undefined\<close> and \<^verbatim>\<open>null\<close> mean every key, except
  where the call disallows them (\<^verbatim>\<open>get\<close>, \<^verbatim>\<open>delete\<close>); any other value must be a valid key.
\<close>

definition to_range :: "bool \<Rightarrow> jsval \<Rightarrow> jserror + keyrange" where
  "to_range null_disallowed q =
     (if (q = JUndef \<or> q = JNull) \<and> \<not> null_disallowed then Inr Unbounded
      else if valid_key q then Inr (Only q) else Inl DataError)"

fun in_range :: "keyrange \<Rightarrow> jsval \<Rightarrow> bool" where
  "in_range Unbounded k = True"
| "in_range (Only q) k = (k = q)"

text \<open>
  The keys under which an index files a record: none when the index key path yields
  nothing or an invalid key; with \<^verbatim>\<open>multiEntry\<close>, one per distinct valid element of an array.
\<close>

definition index_keys :: "index_def \<Rightarrow> jsval \<Rightarrow> jsval list" where
  "index_keys ix v =
     (case extract_key (ipath ix) (multiEntry ix) v of
        Key k \<Rightarrow> (case k of JArr ks \<Rightarrow> if multiEntry ix then ks else [k] | _ \<Rightarrow> [k])
      | _ \<Rightarrow> [])"

type_synonym index_entry = "jsval \<times> jsval \<times> jsval"

definition index_entries :: "index_def \<Rightarrow> (jsval \<times> jsval) list \<Rightarrow> index_entry list" where
  "index_entries ix rs =
     concat (map (\<lambda>r. map (\<lambda>ik. (ik, fst r, snd r)) (index_keys ix (snd r))) rs)"

text \<open>An index is ordered by index key, then by primary key.\<close>

definition entry_le :: "index_entry \<Rightarrow> index_entry \<Rightarrow> bool" where
  "entry_le a b =
     (case compare_keys (fst a) (fst b) of
        Lt \<Rightarrow> True
      | Gt \<Rightarrow> False
      | Eq \<Rightarrow> compare_keys (fst (snd a)) (fst (snd b)) \<noteq> Gt)"

fun insert_entry :: "index_entry \<Rightarrow> index_entry list \<Rightarrow> index_entry list" where
  "insert_entry e [] = [e]"
| "insert_entry e (x # xs) = (if entry_le e x then e # x # xs else x # insert_entry e xs)"

definition sort_entries :: "index_entry list \<Rightarrow> index_entry list" where
  "sort_entries es = foldr insert_entry es []"

definition index_getAll :: "index_def \<Rightarrow> keyrange \<Rightarrow> (jsval \<times> jsval) list \<Rightarrow> jsval list" where
  "index_getAll ix kr rs =
     map (\<lambda>e. snd (snd e))
       (sort_entries (filter (\<lambda>e. in_range kr (fst e)) (index_entries ix rs)))"

text \<open>\<^verbatim>\<open>objectStore.get(key)\<close>: the record, or \<^verbatim>\<open>undefined\<close> when there is none.\<close>

definition store_get :: "objstore \<Rightarrow> jsval \<Rightarrow> jserror + jsval" where
  "store_get os key =
     (case to_range True key of
        Inl e \<Rightarrow> Inl e
      | Inr kr \<Rightarrow> Inr (case map_of (records os) key of None \<Rightarrow> JUndef | Some v \<Rightarrow> v))"

text \<open>
  Lines 150 to 152: \<^verbatim>\<open>indexName ? objectStore.index(indexName).getAll(query) : objectStore.getAll()\<close>.
  An absent or empty index name is falsy; an unknown index throws \<^verbatim>\<open>NotFoundError\<close>.
\<close>

definition store_getAll :: "objstore \<Rightarrow> string option \<Rightarrow> jsval \<Rightarrow> jserror + jsval list" where
  "store_getAll os indexName query =
     (if indexName = None \<or> indexName = Some [] then Inr (map snd (records os))
      else
        (case map_of (indexes os) (the indexName) of
           None \<Rightarrow> Inl NotFoundError
         | Some ix \<Rightarrow>
             (case to_range False query of
                Inl e \<Rightarrow> Inl e
              | Inr kr \<Rightarrow> Inr (index_getAll ix kr (records os)))))"


subsection \<open>The database, transactions and the environment\<close>

type_synonym database = "string \<Rightarrow> objstore option"

text \<open>\<^verbatim>\<open>this.db\<close> is \<^verbatim>\<open>null\<close> or a connection, which \<^verbatim>\<open>close()\<close> makes unusable.\<close>

datatype connection = Live | Closed

datatype txmode = ReadOnly | ReadWrite

record txn =
  scope :: "string list"
  mode :: txmode
  work :: database

text \<open>
  What the environment answers where the program waits for it: the request or the
  commit is done, or it fails with an error. The answers to come are the list
  \<open>answers\<close> of the state, read from its head; when the list is used up, everything succeeds.
\<close>

datatype outcome = Done | Failed jserror

fun next_outcome :: "outcome list \<Rightarrow> outcome \<times> outcome list" where
  "next_outcome [] = (Done, [])"
| "next_outcome (x # xs) = (x, xs)"

text \<open>
  A transaction that the program has stopped waiting for: its working copy, and the
  requests placed in it that are still to be run.
\<close>

record ptx =
  pwork :: database
  preqs :: "(string \<times> wreq) list"

text \<open>
  One call of a subscribed handler. Handlers are opaque to the data layer; \<open>seen\<close>
  records the committed database at the moment of the call, which is what a fresh
  read-only transaction opened by the handler reads from.
\<close>

record delivery =
  event :: string
  handler :: nat
  seen :: database

text \<open>
  The state: the two fields of the class (\<^verbatim>\<open>this.db\<close>, and the listeners of
  \<^verbatim>\<open>this.eventTarget\<close>, handlers named by numbers), and the environment: the database
  that the browser holds (version \<open>0\<close>: not created yet), the transaction in flight,
  the answers to come, the clock read by \<^verbatim>\<open>Date.now()\<close>, the content of
  \<^verbatim>\<open>seed-db.json\<close>, and the handler calls made so far.
\<close>

record datalayer =
  db :: "connection option"
  listeners :: "(string \<times> nat) list"
  idb_version :: nat
  idb :: database
  pending :: "ptx option"
  answers :: "outcome list"
  now :: int
  seed_json :: "(string \<times> jsval list) list"
  trace :: "delivery list"

text \<open>
  An asynchronous method takes the state and returns the state together with the value
  it resolves with or the error it rejects with. \<open>await\<close> sequences two of them; a
  rejection skips the rest, as an exception thrown at \<^verbatim>\<open>await\<close> does.
\<close>

type_synonym 'a io = "datalayer \<Rightarrow> (jserror + 'a) \<times> datalayer"

definition resolve :: "'a \<Rightarrow> 'a io" where
  "resolve x s = (Inr x, s)"

definition lift :: "(datalayer \<Rightarrow> datalayer) \<Rightarrow> unit io" where
  "lift f s = (Inr (), f s)"

definition await :: "'a io \<Rightarrow> ('a \<Rightarrow> 'b io) \<Rightarrow> 'b io" where
  "await m f s = (case m s of (Inl e, s') \<Rightarrow> (Inl e, s') | (Inr x, s') \<Rightarrow> f x s')"

text \<open>Running one placed request on the working copy.\<close>

definition execute :: "string \<times> wreq \<Rightarrow> database \<Rightarrow> jserror + database" where
  "execute r d =
     (case d (fst r) of
        None \<Rightarrow> Inl NotFoundError
      | Some os \<Rightarrow> (case run (snd r) os of Inl e \<Rightarrow> Inl e | Inr os' \<Rightarrow> Inr (d(fst r \<mapsto> os'))))"

text \<open>
  The placed requests run in order. Each takes one answer of the environment; the
  first that fails ends the run: the transaction aborts and its working copy is dropped.
\<close>

fun answer_all ::
  "(string \<times> wreq) list \<Rightarrow> database \<Rightarrow> outcome list \<Rightarrow> (jserror + database) \<times> outcome list" where
  "answer_all [] d orc = (Inr d, orc)"
| "answer_all (r # rs) d orc =
     (case next_outcome orc of
        (Failed e, orc') \<Rightarrow> (Inl e, orc')
      | (Done, orc') \<Rightarrow>
          (case execute r d of Inl e \<Rightarrow> (Inl e, orc') | Inr d' \<Rightarrow> answer_all rs d' orc'))"

text \<open>
  The transaction in flight finishes on its own: its requests run, then it commits,
  unless the environment fails a request or the commit. Nobody hears of the result.
\<close>

definition settle :: "datalayer \<Rightarrow> datalayer" where
  "settle s =
     (case pending s of
        None \<Rightarrow> s
      | Some p \<Rightarrow>
          (case answer_all (preqs p) (pwork p) (answers s) of
             (Inl e, orc) \<Rightarrow> s\<lparr>pending := None, answers := orc\<rparr>
           | (Inr d, orc) \<Rightarrow>
               (case next_outcome orc of
                  (Failed e, orc') \<Rightarrow> s\<lparr>pending := None, answers := orc'\<rparr>
                | (Done, orc') \<Rightarrow> s\<lparr>idb := d, pending := None, answers := orc'\<rparr>)))"

text \<open>
  \<^verbatim>\<open>db.transaction(storeNames, mode)\<close>. Transactions run one after another: the new one
  starts from the committed database once the transaction in flight has finished.
\<close>

definition db_transaction :: "string list \<Rightarrow> txmode \<Rightarrow> txn io" where
  "db_transaction storeNames m s =
     (case db s of
        None \<Rightarrow> (Inl TypeError, s)
      | Some Closed \<Rightarrow> (Inl InvalidStateError, s)
      | Some Live \<Rightarrow>
          (if \<exists>n \<in> set storeNames. idb (settle s) n = None then (Inl NotFoundError, settle s)
           else (Inr \<lparr>scope = storeNames, mode = m, work = idb (settle s)\<rparr>, settle s)))"

text \<open>What placing a write request throws.\<close>

definition throws :: "txn \<Rightarrow> string \<times> wreq \<Rightarrow> jserror option" where
  "throws tx r =
     (if fst r \<notin> set (scope tx) then Some NotFoundError
      else if mode tx = ReadOnly then Some ReadOnlyError
      else (case work tx (fst r) of None \<Rightarrow> Some NotFoundError | Some os \<Rightarrow> precheck os (snd r)))"

fun first_thrown :: "txn \<Rightarrow> (string \<times> wreq) list \<Rightarrow> jserror option" where
  "first_thrown tx [] = None"
| "first_thrown tx (r # rs) =
     (case throws tx r of Some e \<Rightarrow> Some e | None \<Rightarrow> first_thrown tx rs)"

text \<open>
  \<^verbatim>\<open>await Promise.all(\<close>requests, each wrapped in a promise\<^verbatim>\<open>)\<close>, and with one request the
  single wrapped request of \<^verbatim>\<open>put\<close>, \<^verbatim>\<open>delete\<close> and \<^verbatim>\<open>recordLog\<close>. All requests are
  placed at once. A call that throws rejects its promise at once, so the first such
  error is what the method rejects with; the transaction is not aborted by it and goes
  on, unattended, with the requests that were placed. Otherwise the requests are
  answered in order, and the first failure aborts the transaction and is the rejection.
\<close>

definition request_all :: "txn \<Rightarrow> (string \<times> wreq) list \<Rightarrow> txn io" where
  "request_all tx rs s =
     (case first_thrown tx rs of
        Some e \<Rightarrow>
          (Inl e, s\<lparr>pending := Some \<lparr>pwork = work tx, preqs = filter (\<lambda>r. throws tx r = None) rs\<rparr>\<rparr>)
      | None \<Rightarrow>
          (case answer_all rs (work tx) (answers s) of
             (Inl e, orc) \<Rightarrow> (Inl e, s\<lparr>answers := orc\<rparr>)
           | (Inr d, orc) \<Rightarrow> (Inr (tx\<lparr>work := d\<rparr>), s\<lparr>answers := orc\<rparr>)))"

text \<open>
  \<^verbatim>\<open>await new Promise(\<close>\<^verbatim>\<open>tx.oncomplete\<close>, \<^verbatim>\<open>tx.onerror\<close>, \<^verbatim>\<open>tx.onabort)\<close>: the commit makes the
  working copy the committed database; an abort leaves the database as it was.
\<close>

definition complete :: "txn \<Rightarrow> unit io" where
  "complete tx s =
     (case next_outcome (answers s) of
        (Failed e, orc) \<Rightarrow> (Inl e, s\<lparr>answers := orc\<rparr>)
      | (Done, orc) \<Rightarrow> (Inr (), s\<lparr>answers := orc, idb := work tx\<rparr>))"

text \<open>A transaction with answered requests that the method does not wait for.\<close>

definition unattended :: "txn \<Rightarrow> datalayer \<Rightarrow> datalayer" where
  "unattended tx s = s\<lparr>pending := Some \<lparr>pwork = work tx, preqs = []\<rparr>\<rparr>"

text \<open>A read request wrapped in a promise (\<^verbatim>\<open>get\<close>, \<^verbatim>\<open>getAll\<close>).\<close>

definition read_request :: "txn \<Rightarrow> string \<Rightarrow> (objstore \<Rightarrow> jserror + 'a) \<Rightarrow> 'a io" where
  "read_request tx store f s =
     (if store \<notin> set (scope tx) then (Inl NotFoundError, s)
      else
        (case work tx store of
           None \<Rightarrow> (Inl NotFoundError, s)
         | Some os \<Rightarrow>
             (case f os of
                Inl e \<Rightarrow> (Inl e, s)
              | Inr r \<Rightarrow>
                  (case next_outcome (answers s) of
                     (Failed e, orc) \<Rightarrow> (Inl e, s\<lparr>answers := orc\<rparr>)
                   | (Done, orc) \<Rightarrow> (Inr r, s\<lparr>answers := orc\<rparr>)))))"


subsection \<open>The class DataLayer\<close>

definition DB_VERSION :: nat where
  "DB_VERSION = 1"

definition STORES :: "string list" where
  "STORES = [''meta'', ''users'', ''profiles'', ''chats'', ''messages'', ''posts'',
             ''comments'', ''likes'', ''logs'']"

definition createObjectStore :: "string \<Rightarrow> bool \<Rightarrow> objstore" where
  "createObjectStore path auto =
     \<lparr>keyPath = path, autoIncrement = auto, current = 1, indexes = [], records = []\<rparr>"

definition createIndex :: "string \<Rightarrow> string \<Rightarrow> bool \<Rightarrow> objstore \<Rightarrow> objstore" where
  "createIndex name path multi os =
     os\<lparr>indexes := indexes os @ [(name, \<lparr>ipath = path, multiEntry = multi\<rparr>)]\<rparr>"

text \<open>The \<^verbatim>\<open>switch\<close> of lines 37 to 82.\<close>

definition new_store :: "string \<Rightarrow> objstore" where
  "new_store store =
     (if store = ''meta'' then createObjectStore ''key'' False
      else if store = ''users'' then createObjectStore ''id'' False
      else if store = ''profiles'' then createObjectStore ''id'' False
      else if store = ''chats'' then
        createIndex ''by_participant'' ''participants'' True (createObjectStore ''id'' False)
      else if store = ''messages'' then
        createIndex ''by_time'' ''time'' False
          (createIndex ''by_chat'' ''chatId'' False (createObjectStore ''id'' False))
      else if store = ''posts'' then
        createIndex ''by_type'' ''type'' False
          (createIndex ''by_author'' ''authorProfileId'' False (createObjectStore ''id'' False))
      else if store = ''comments'' then
        createIndex ''by_post'' ''postId'' False (createObjectStore ''id'' False)
      else if store = ''likes'' then
        createIndex ''by_profile'' ''profileId'' False
          (createIndex ''by_post'' ''postId'' False (createObjectStore ''id'' False))
      else if store = ''logs'' then
        createIndex ''by_time'' ''time'' False (createObjectStore ''id'' True)
      else createObjectStore ''id'' False)"

text \<open>\<^verbatim>\<open>onupgradeneeded\<close> (lines 33 to 85): every store of \<^verbatim>\<open>STORES\<close> that is not there is created.\<close>

definition onupgradeneeded :: "database \<Rightarrow> database" where
  "onupgradeneeded d =
     fold (\<lambda>store d. if d store \<noteq> None then d else d(store \<mapsto> new_store store)) STORES d"

text \<open>
  \<^verbatim>\<open>indexedDB.open(DB_NAME, DB_VERSION)\<close> wrapped in a promise (lines 31 to 88): the
  upgrade runs when the stored version is lower; a higher stored version is a \<^verbatim>\<open>VersionError\<close>.
\<close>

definition indexedDB_open :: "unit io" where
  "indexedDB_open s =
     (case next_outcome (answers s) of
        (Failed e, orc) \<Rightarrow> (Inl e, s\<lparr>answers := orc\<rparr>)
      | (Done, orc) \<Rightarrow>
          (if DB_VERSION < idb_version s then (Inl VersionError, s\<lparr>answers := orc\<rparr>)
           else if idb_version s < DB_VERSION then
             (Inr (), s\<lparr>answers := orc, idb_version := DB_VERSION, idb := onupgradeneeded (idb s)\<rparr>)
           else (Inr (), s\<lparr>answers := orc\<rparr>)))"

text \<open>
  \<^verbatim>\<open>open()\<close> is entered again, through \<^verbatim>\<open>transaction()\<close>, by every other method. The
  methods are therefore written over the \<^verbatim>\<open>open()\<close> they call.
\<close>

type_synonym opener = "unit io"

text \<open>Lines 132 to 135.\<close>

definition transaction_with :: "opener \<Rightarrow> string list \<Rightarrow> txmode \<Rightarrow> txn io" where
  "transaction_with opn storeNames m = await opn (\<lambda>_. db_transaction storeNames m)"

text \<open>Lines 137 to 144.\<close>

definition get_with :: "opener \<Rightarrow> string \<Rightarrow> jsval \<Rightarrow> jsval io" where
  "get_with opn store key =
     await (transaction_with opn [store] ReadOnly) (\<lambda>tx.
       read_request tx store (\<lambda>os. store_get os key))"

text \<open>Lines 146 to 156.\<close>

definition getAll_with :: "opener \<Rightarrow> string \<Rightarrow> string option \<Rightarrow> jsval \<Rightarrow> jsval list io" where
  "getAll_with opn store indexName query =
     await (transaction_with opn [store] ReadOnly) (\<lambda>tx.
       read_request tx store (\<lambda>os. store_getAll os indexName query))"

text \<open>
  Lines 250 to 252 and 254 to 257. \<^verbatim>\<open>dispatchEvent\<close> calls the listeners registered
  for the name, in the order of their registration; \<^verbatim>\<open>addEventListener\<close> ignores a
  listener that is registered already.
\<close>

definition deliveries :: "string \<Rightarrow> (string \<times> nat) list \<Rightarrow> database \<Rightarrow> delivery list" where
  "deliveries name ls d =
     map (\<lambda>l. \<lparr>event = name, handler = snd l, seen = d\<rparr>) (filter (\<lambda>l. fst l = name) ls)"

definition dispatch :: "string \<Rightarrow> datalayer \<Rightarrow> datalayer" where
  "dispatch name s = s\<lparr>trace := trace s @ deliveries name (listeners s) (idb s)\<rparr>"

definition subscribe :: "string \<Rightarrow> nat \<Rightarrow> datalayer \<Rightarrow> datalayer" where
  "subscribe name h s =
     (if (name, h) \<in> set (listeners s) then s else s\<lparr>listeners := listeners s @ [(name, h)]\<rparr>)"

definition unsubscribe :: "string \<Rightarrow> nat \<Rightarrow> datalayer \<Rightarrow> datalayer" where
  "unsubscribe name h s = s\<lparr>listeners := removeAll (name, h) (listeners s)\<rparr>"

text \<open>
  Lines 235 to 248. The method waits for the \<^verbatim>\<open>add\<close> request only: when it dispatches
  and returns, the transaction on \<^verbatim>\<open>logs\<close> has not committed yet.
\<close>

definition log_entry :: "string \<Rightarrow> jsval \<Rightarrow> int \<Rightarrow> jsval" where
  "log_entry action payload t =
     JObj [(''action'', JStr action), (''payload'', payload), (''time'', JNum t)]"

definition recordLog_with :: "opener \<Rightarrow> string \<Rightarrow> jsval \<Rightarrow> unit io" where
  "recordLog_with opn action payload s =
     (let entry = log_entry action payload (now s)
      in await (transaction_with opn [''logs''] ReadWrite) (\<lambda>tx.
           await (request_all tx [(''logs'', WAdd entry)]) (\<lambda>tx'.
             lift (\<lambda>s. dispatch ''logs:change'' (unattended tx' s)))) s)"

text \<open>Lines 158 to 173.\<close>

definition put_with :: "opener \<Rightarrow> string \<Rightarrow> jsval \<Rightarrow> jsval io" where
  "put_with opn store v =
     await (transaction_with opn [store] ReadWrite) (\<lambda>tx.
       await (request_all tx [(store, WPut v)]) (\<lambda>tx'.
         await (complete tx') (\<lambda>_.
           await (recordLog_with opn ''put'' (JObj [(''store'', JStr store), (''value'', v)])) (\<lambda>_.
             await (lift (dispatch (store @ '':change''))) (\<lambda>_.
               resolve v)))))"

text \<open>Lines 175 to 196.\<close>

definition bulkPut_with :: "opener \<Rightarrow> string \<Rightarrow> jsval list \<Rightarrow> jsval list io" where
  "bulkPut_with opn store vs =
     await (transaction_with opn [store] ReadWrite) (\<lambda>tx.
       await (request_all tx (map (\<lambda>v. (store, WPut v)) vs)) (\<lambda>tx'.
         await (complete tx') (\<lambda>_.
           await (recordLog_with opn ''bulkPut''
                    (JObj [(''store'', JStr store), (''count'', JNum (int (length vs)))])) (\<lambda>_.
             await (lift (dispatch (store @ '':change''))) (\<lambda>_.
               resolve vs)))))"

text \<open>Lines 198 to 212.\<close>

definition delete_with :: "opener \<Rightarrow> string \<Rightarrow> jsval \<Rightarrow> unit io" where
  "delete_with opn store key =
     await (transaction_with opn [store] ReadWrite) (\<lambda>tx.
       await (request_all tx [(store, WDelete key)]) (\<lambda>tx'.
         await (complete tx') (\<lambda>_.
           await (recordLog_with opn ''delete'' (JObj [(''store'', JStr store), (''key'', key)])) (\<lambda>_.
             lift (dispatch (store @ '':change''))))))"

text \<open>Lines 214 to 233.\<close>

definition clearAll_with :: "opener \<Rightarrow> unit io" where
  "clearAll_with opn =
     await (transaction_with opn STORES ReadWrite) (\<lambda>tx.
       await (request_all tx (map (\<lambda>store. (store, WClear)) STORES)) (\<lambda>tx'.
         await (complete tx') (\<lambda>_.
           await (recordLog_with opn ''reset'' (JObj [(''info'', JStr ''database cleared'')])) (\<lambda>_.
             lift (dispatch ''db:reset'')))))"

text \<open>
  Lines 103 and 104: fetching \<^verbatim>\<open>seed-db.json\<close> and parsing it, each of which may fail.
  The document maps names of collections to arrays of records.
\<close>

definition fetch_seed :: "(string \<times> jsval list) list io" where
  "fetch_seed s =
     (case next_outcome (answers s) of
        (Failed e, orc) \<Rightarrow> (Inl e, s\<lparr>answers := orc\<rparr>)
      | (Done, orc) \<Rightarrow>
          (case next_outcome orc of
             (Failed e, orc') \<Rightarrow> (Inl e, s\<lparr>answers := orc'\<rparr>)
           | (Done, orc') \<Rightarrow> (Inr (seed_json s), s\<lparr>answers := orc'\<rparr>)))"

text \<open>Lines 107 to 121: no request for \<^verbatim>\<open>meta\<close>; \<^verbatim>\<open>data[store] || []\<close> for the others.\<close>

definition seed_requests :: "(string \<times> jsval list) list \<Rightarrow> (string \<times> wreq) list" where
  "seed_requests data =
     concat (map (\<lambda>store.
       if store = ''meta'' then []
       else map (\<lambda>item. (store, WPut item))
              (case map_of data store of None \<Rightarrow> [] | Some items \<Rightarrow> items)) STORES)"

definition seed_marker :: "int \<Rightarrow> jsval" where
  "seed_marker t = JObj [(''key'', JStr ''seeded''), (''value'', JBool True), (''time'', JNum t)]"

text \<open>
  Lines 102 to 130. The transaction is taken from \<^verbatim>\<open>this.db\<close> directly. The request
  for the marker is placed after the others have succeeded and is answered while the
  method waits for the transaction to complete.
\<close>

definition seed_with :: "opener \<Rightarrow> unit io" where
  "seed_with opn =
     await fetch_seed (\<lambda>data.
       await (db_transaction STORES ReadWrite) (\<lambda>tx.
         await (request_all tx (seed_requests data)) (\<lambda>tx'.
           await (\<lambda>s. request_all tx' [(''meta'', WPut (seed_marker (now s)))] s) (\<lambda>tx''.
             await (complete tx'') (\<lambda>_.
               recordLog_with opn ''seed'' (JObj [(''info'', JStr ''Seed database loaded'')]))))))"

text \<open>
  Line 30, for the calls that \<^verbatim>\<open>open()\<close> makes to itself: lines 95 and 97 run after
  line 31 has assigned the connection to \<^verbatim>\<open>this.db\<close>, and nothing resets that field.
\<close>

definition reentered :: opener where
  "reentered s = (Inr (), s)"

text \<open>Lines 29 to 100.\<close>

definition open_db :: opener where
  "open_db s =
     (if db s \<noteq> None then (Inr (), s)
      else
        await indexedDB_open (\<lambda>_.
          await (lift (\<lambda>s. s\<lparr>db := Some Live\<rparr>)) (\<lambda>_.
            await (get_with reentered ''meta'' (JStr ''seeded'')) (\<lambda>seeded.
              if \<not> truthy seeded then seed_with reentered else resolve ()))) s)"

text \<open>
  Lines 90 to 93, the handler of \<^verbatim>\<open>versionchange\<close>, an event of the environment: the
  connection is closed.
\<close>

definition onversionchange :: "datalayer \<Rightarrow> datalayer" where
  "onversionchange s = (case db s of None \<Rightarrow> s | Some c \<Rightarrow> s\<lparr>db := Some Closed\<rparr>)"

text \<open>The methods as the rest of the program calls them.\<close>

definition transaction :: "string list \<Rightarrow> txmode \<Rightarrow> txn io" where
  "transaction = transaction_with open_db"

definition get :: "string \<Rightarrow> jsval \<Rightarrow> jsval io" where
  "get = get_with open_db"

definition getAll :: "string \<Rightarrow> string option \<Rightarrow> jsval \<Rightarrow> jsval list io" where
  "getAll = getAll_with open_db"

definition recordLog :: "string \<Rightarrow> jsval \<Rightarrow> unit io" where
  "recordLog = recordLog_with open_db"

definition put :: "string \<Rightarrow> jsval \<Rightarrow> jsval io" where
  "put = put_with open_db"

definition bulkPut :: "string \<Rightarrow> jsval list \<Rightarrow> jsval list io" where
  "bulkPut = bulkPut_with open_db"

definition delete :: "string \<Rightarrow> jsval \<Rightarrow> unit io" where
  "delete = delete_with open_db"

definition clearAll :: "unit io" where
  "clearAll = clearAll_with open_db"

definition seed :: "unit io" where
  "seed = seed_with open_db"

text \<open>The state after \<^verbatim>\<open>new DataLayer()\<close> (lines 24 to 27) in a browser that has no database yet.\<close>

definition fresh :: "(string \<times> jsval list) list \<Rightarrow> int \<Rightarrow> datalayer" where
  "fresh data t =
     \<lparr>db = None, listeners = [], idb_version = 0, idb = Map.empty, pending = None,
      answers = [], now = t, seed_json = data, trace = []\<rparr>"


subsection \<open>Well-formed states\<close>

text \<open>
  The properties of an object store that the upgrade establishes and every request
  keeps: the definition given at lines 39 to 81 for its name, one record per key, each
  record filed under the key that its key path yields, and, where keys are generated, a
  generator that is past every numeric key (or used up).
\<close>

fun key_below :: "int \<Rightarrow> jsval \<Rightarrow> bool" where
  "key_below c (JNum n) = (n < c)"
| "key_below c k = True"

definition conforms :: "string \<Rightarrow> objstore \<Rightarrow> bool" where
  "conforms store os \<longleftrightarrow>
     keyPath os = keyPath (new_store store) \<and>
     autoIncrement os = autoIncrement (new_store store) \<and>
     indexes os = indexes (new_store store) \<and>
     distinct (map fst (records os)) \<and>
     (\<forall>r \<in> set (records os). extract_key (keyPath os) False (snd r) = Key (fst r)) \<and>
     (autoIncrement os \<longrightarrow> max_generated < current os \<or>
        (\<forall>r \<in> set (records os). key_below (current os) (fst r)))"

definition schema_ok :: "database \<Rightarrow> bool" where
  "schema_ok d \<longleftrightarrow>
     (\<forall>store \<in> set STORES. case d store of None \<Rightarrow> False | Some os \<Rightarrow> conforms store os)"

text \<open>
  A state in which \<^verbatim>\<open>open()\<close> has run: the connection is there, and the database, and
  the working copy of the transaction in flight, have the stores of the upgrade. No
  listener is registered twice, which \<^verbatim>\<open>addEventListener\<close> sees to.
\<close>

definition ready :: "datalayer \<Rightarrow> bool" where
  "ready s \<longleftrightarrow>
     db s = Some Live \<and> schema_ok (idb s) \<and>
     (case pending s of None \<Rightarrow> True | Some p \<Rightarrow> schema_ok (pwork p)) \<and>
     distinct (listeners s)"

text \<open>The records of a collection, and the current number of the key generator of \<^verbatim>\<open>logs\<close>.\<close>

definition stored :: "database \<Rightarrow> string \<Rightarrow> (jsval \<times> jsval) list" where
  "stored d store = (case d store of None \<Rightarrow> [] | Some os \<Rightarrow> records os)"

definition generator :: "database \<Rightarrow> int" where
  "generator d = (case d ''logs'' of None \<Rightarrow> 0 | Some os \<Rightarrow> current os)"

text \<open>The database once the transaction in flight has finished.\<close>

definition committed :: "datalayer \<Rightarrow> database" where
  "committed s = idb (settle s)"

text \<open>The key of a record in a collection.\<close>

definition key_of :: "string \<Rightarrow> jsval \<Rightarrow> extracted" where
  "key_of store v = extract_key (keyPath (new_store store)) False v"

text \<open>The requests of a list run in order, with nothing failing in the environment.\<close>

fun execute_all :: "(string \<times> wreq) list \<Rightarrow> database \<Rightarrow> jserror + database" where
  "execute_all [] d = Inr d"
| "execute_all (r # rs) d = (case execute r d of Inl e \<Rightarrow> Inl e | Inr d' \<Rightarrow> execute_all rs d')"

text \<open>
  The shape that \<^verbatim>\<open>put\<close>, \<^verbatim>\<open>bulkPut\<close>, \<^verbatim>\<open>delete\<close> and \<^verbatim>\<open>clearAll\<close> share: a transaction,
  its requests, its completion, the entry in the log, the event.
\<close>

definition mutation ::
  "opener \<Rightarrow> string list \<Rightarrow> (string \<times> wreq) list \<Rightarrow> string \<Rightarrow> jsval \<Rightarrow> string \<Rightarrow> unit io" where
  "mutation opn names reqs action payload ev =
     await (transaction_with opn names ReadWrite) (\<lambda>tx.
       await (request_all tx reqs) (\<lambda>tx'.
         await (complete tx') (\<lambda>_.
           await (recordLog_with opn action payload) (\<lambda>_.
             lift (dispatch ev)))))"


text \<open>The entry of the log as it is stored, with the generated key injected at \<^verbatim>\<open>id\<close>.\<close>

definition logged :: "string \<Rightarrow> jsval \<Rightarrow> int \<Rightarrow> int \<Rightarrow> jsval" where
  "logged action payload t c =
     JObj [(''action'', JStr action), (''payload'', payload), (''time'', JNum t), (''id'', JNum c)]"

text \<open>
  The database with one more entry in \<^verbatim>\<open>logs\<close>, under the key that the generator gives,
  and the state that a writing method leaves when it resolves: its own transaction
  committed (\<open>d1\<close>), the transaction of \<^verbatim>\<open>recordLog\<close> in flight, the subscribers of
  \<^verbatim>\<open>logs:change\<close> and then those of the method's own event, if it has one, called.
\<close>

definition with_entry :: "string \<Rightarrow> jsval \<Rightarrow> int \<Rightarrow> database \<Rightarrow> database" where
  "with_entry action payload t d =
     (case d ''logs'' of
        None \<Rightarrow> d
      | Some ol \<Rightarrow>
          d(''logs'' \<mapsto> ol\<lparr>current := current ol + 1,
              records := insert_sorted (JNum (current ol)) (logged action payload t (current ol))
                           (records ol)\<rparr>))"

definition after_mutation ::
  "datalayer \<Rightarrow> database \<Rightarrow> string \<Rightarrow> jsval \<Rightarrow> string list \<Rightarrow> datalayer" where
  "after_mutation s d1 action payload evs =
     (settle s)\<lparr>idb := d1,
        pending := Some \<lparr>pwork = with_entry action payload (now s) d1, preqs = []\<rparr>,
        trace := trace s @ deliveries ''logs:change'' (listeners s) d1
                 @ concat (map (\<lambda>ev. deliveries ev (listeners s) d1) evs)\<rparr>"

text \<open>
  What a method that resolved in \<open>s'\<close> has added to the log, \<open>d1\<close> being the database as its
  own transaction left it: the key generator had not moved back, the key it gave is above
  every number that is a key in \<^verbatim>\<open>logs\<close>, the collection holds the entry under that key
  and is one record longer, the generator has moved on by one, and \<^verbatim>\<open>getAll('logs')\<close>
  returns the collection.
\<close>

definition appends :: "datalayer \<Rightarrow> database \<Rightarrow> string \<Rightarrow> jsval \<Rightarrow> datalayer \<Rightarrow> bool" where
  "appends s d1 action payload s' \<longleftrightarrow>
     generator (committed s) \<le> generator d1 \<and>
     list_all (\<lambda>r. key_below (generator d1) (fst r)) (stored d1 ''logs'') \<and>
     stored (committed s') ''logs''
       = insert_sorted (JNum (generator d1)) (logged action payload (now s) (generator d1))
           (stored d1 ''logs'') \<and>
     length (stored (committed s') ''logs'') = Suc (length (stored d1 ''logs'')) \<and>
     generator (committed s') = generator d1 + 1 \<and>
     fst (getAll ''logs'' None JUndef s') = Inr (map snd (stored (committed s') ''logs''))"

text \<open>The database with the collections of a list emptied.\<close>

definition cleared :: "string list \<Rightarrow> database \<Rightarrow> database" where
  "cleared ss d =
     (\<lambda>store. if store \<in> set ss then map_option (\<lambda>os. os\<lparr>records := []\<rparr>) (d store) else d store)"

text \<open>A request that puts, into a collection of \<^verbatim>\<open>STORES\<close>, a record that carries its key.\<close>

fun keyed :: "string \<times> wreq \<Rightarrow> bool" where
  "keyed (store, WPut v) =
     (store \<in> set STORES \<and> (case key_of store v of Key k \<Rightarrow> True | _ \<Rightarrow> False))"
| "keyed r = False"

text \<open>
  The page is loaded again: a new \<^verbatim>\<open>DataLayer\<close>, with no connection and no listeners,
  over the database as the browser holds it once the transaction in flight has finished.
\<close>

definition reload :: "datalayer \<Rightarrow> datalayer" where
  "reload s = (settle s)\<lparr>db := None, listeners := []\<rparr>"

text \<open>
  The state once line 31 has assigned the connection, the environment failing nothing:
  the upgrade has run where the stored version was lower. And the test of line 95 on a
  database: a record is stored in \<^verbatim>\<open>meta\<close> under the key \<^verbatim>\<open>seeded\<close>.
\<close>

definition connect :: "datalayer \<Rightarrow> datalayer" where
  "connect u =
     u\<lparr>db := Some Live, idb_version := DB_VERSION,
       idb := if idb_version u < DB_VERSION then onupgradeneeded (idb u) else idb u\<rparr>"

definition seeded :: "database \<Rightarrow> bool" where
  "seeded d \<longleftrightarrow> map_of (stored d ''meta'') (JStr ''seeded'') \<noteq> None"

text \<open>An \<^verbatim>\<open>open()\<close> that returns at once where the connection is there.\<close>

definition passes :: "opener \<Rightarrow> bool" where
  "passes opn \<longleftrightarrow> (\<forall>t. db t = Some Live \<longrightarrow> opn t = (Inr (), t))"

text \<open>The requests that remove records.\<close>

fun removes :: "string \<times> wreq \<Rightarrow> bool" where
  "removes (store, WDelete k) = True"
| "removes (store, WClear) = True"
| "removes r = False"

text \<open>The condition on the key generator, on its own.\<close>

definition gen_ok :: "objstore \<Rightarrow> bool" where
  "gen_ok os \<longleftrightarrow> max_generated < current os \<or>
     (\<forall>r \<in> set (records os). key_below (current os) (fst r))"

text \<open>
  A state to try the theorems on: the database right after the upgrade, opened, with
  nothing in flight, and two subscribers.
\<close>

definition example :: datalayer where
  "example =
     \<lparr>db = Some Live, listeners = [(''chats:change'', 1), (''logs:change'', 2)],
      idb_version = 1, idb = onupgradeneeded Map.empty, pending = None, answers = [],
      now = 1000, seed_json = [], trace = []\<rparr>"



section \<open>Records in key order\<close>

lemma set_insert_sorted: "set (insert_sorted k v rs) = insert (k, v) (set rs)"
  by (induction rs) auto

lemma length_insert_sorted: "length (insert_sorted k v rs) = Suc (length rs)"
  by (induction rs) auto

lemma insert_sorted_split: "\<exists>xs ys. rs = xs @ ys \<and> insert_sorted k v rs = xs @ (k, v) # ys"
proof (induction rs)
  case Nil
  then show ?case by simp
next
  case (Cons r rs)
  then obtain xs ys where split: "rs = xs @ ys" "insert_sorted k v rs = xs @ (k, v) # ys"
    by blast
  show ?case
  proof (cases "compare_keys k (fst r) = Gt")
    case True
    with split have "r # rs = (r # xs) @ ys \<and> insert_sorted k v (r # rs) = (r # xs) @ (k, v) # ys"
      by simp
    then show ?thesis by blast
  next
    case False
    then have "r # rs = [] @ (r # rs) \<and> insert_sorted k v (r # rs) = [] @ (k, v) # (r # rs)"
      by simp
    then show ?thesis by blast
  qed
qed

lemma map_of_insert_sorted:
  "k \<notin> fst ` set rs \<Longrightarrow> map_of (insert_sorted k v rs) = (map_of rs)(k \<mapsto> v)"
  by (induction rs) (auto simp: fun_upd_twist)

lemma map_of_delete_record: "map_of (delete_record k rs) = (map_of rs)(k := None)"
  by (induction rs) (auto simp: delete_record_def)

lemma keys_delete_record: "fst ` set (delete_record k rs) = fst ` set rs - {k}"
  by (auto simp: delete_record_def)

lemma map_of_store_record: "map_of (store_record k v rs) = (map_of rs)(k \<mapsto> v)"
  by (simp add: store_record_def map_of_insert_sorted keys_delete_record map_of_delete_record)

lemma set_store_record: "set (store_record k v rs) = insert (k, v) {r \<in> set rs. fst r \<noteq> k}"
  by (auto simp: store_record_def set_insert_sorted delete_record_def)

lemma distinct_insert_sorted:
  "distinct (map fst rs) \<Longrightarrow> k \<notin> fst ` set rs \<Longrightarrow> distinct (map fst (insert_sorted k v rs))"
  by (induction rs) (auto simp: set_insert_sorted)

lemma distinct_delete_record: "distinct (map fst rs) \<Longrightarrow> distinct (map fst (delete_record k rs))"
  by (simp add: delete_record_def distinct_map_filter)

lemma distinct_store_record: "distinct (map fst rs) \<Longrightarrow> distinct (map fst (store_record k v rs))"
  by (simp add: store_record_def distinct_insert_sorted distinct_delete_record keys_delete_record)

lemma store_record_fresh: "k \<notin> fst ` set rs \<Longrightarrow> store_record k v rs = insert_sorted k v rs"
proof -
  assume "k \<notin> fst ` set rs"
  then have "filter (\<lambda>r. fst r \<noteq> k) rs = rs" by (induction rs) auto
  then show ?thesis by (simp add: store_record_def delete_record_def)
qed

lemma length_delete_record:
  "distinct (map fst rs) \<Longrightarrow> k \<in> fst ` set rs \<Longrightarrow> Suc (length (delete_record k rs)) = length rs"
proof (induction rs)
  case Nil
  then show ?case by simp
next
  case (Cons r rs)
  show ?case
  proof (cases "fst r = k")
    case True
    with Cons.prems have "k \<notin> fst ` set rs" by auto
    then have "filter (\<lambda>r. fst r \<noteq> k) rs = rs" by (induction rs) auto
    with True show ?thesis by (simp add: delete_record_def)
  next
    case False
    with Cons.prems have "distinct (map fst rs)" "k \<in> fst ` set rs" by auto
    with Cons.IH False show ?thesis by (simp add: delete_record_def)
  qed
qed

lemma length_store_record:
  "distinct (map fst rs) \<Longrightarrow>
   length (store_record k v rs) = (if k \<in> fst ` set rs then length rs else Suc (length rs))"
proof (cases "k \<in> fst ` set rs")
  case True
  assume "distinct (map fst rs)"
  with True have "Suc (length (delete_record k rs)) = length rs"
    by (rule length_delete_record[rotated])
  with True show ?thesis by (simp add: store_record_def length_insert_sorted)
next
  case False
  then show ?thesis by (simp add: store_record_fresh length_insert_sorted)
qed

lemma length_delete_record_le: "length (delete_record k rs) \<le> length rs"
  by (simp add: delete_record_def)

lemma map_of_filter_other: "map_of (filter (\<lambda>f. fst f \<noteq> p) fs) p = None"
  by (induction fs) auto

lemma extract_key_inject:
  "injectable v \<Longrightarrow> extract_key path False (inject_key path (JNum n) v) = Key (JNum n)"
  by (cases v) (simp_all add: extract_key_def convert_to_key_def map_add_def map_of_filter_other)

section \<open>Requests keep the stores well formed\<close>

lemma bump_generator_fields [simp]:
  "keyPath (bump_generator k os) = keyPath os"
  "autoIncrement (bump_generator k os) = autoIncrement os"
  "indexes (bump_generator k os) = indexes os"
  "records (bump_generator k os) = records os"
  by (auto simp: bump_generator_def split: jsval.splits)

lemma bump_generator_mono: "current os \<le> current (bump_generator k os)"
  by (auto simp: bump_generator_def split: jsval.splits)

lemma bump_generator_past:
  "current (bump_generator (JNum n) os) \<le> max_generated \<Longrightarrow> n < current (bump_generator (JNum n) os)"
  by (auto simp: bump_generator_def min_def split: if_splits)

lemma key_below_mono: "key_below c k \<Longrightarrow> c \<le> c' \<Longrightarrow> key_below c' k"
  by (cases k) auto

lemma gen_ok_put:
  assumes "gen_ok os"
  shows "gen_ok ((bump_generator k os)\<lparr>records := store_record k v (records os)\<rparr>)"
proof (cases "max_generated < current (bump_generator k os)")
  case True
  then show ?thesis by (simp add: gen_ok_def)
next
  case False
  with bump_generator_mono[of os k] have small: "\<not> max_generated < current os" by linarith
  with assms have old: "\<forall>r \<in> set (records os). key_below (current os) (fst r)"
    by (simp add: gen_ok_def)
  have "key_below (current (bump_generator k os)) (fst r)"
    if "r \<in> set (store_record k v (records os))" for r
  proof (cases "r = (k, v)")
    case True
    with False bump_generator_past[of _ os] show ?thesis by (cases k) auto
  next
    case neq: False
    with that have "r \<in> set (records os)" by (auto simp: set_store_record)
    with old bump_generator_mono[of os k] show ?thesis by (blast intro: key_below_mono)
  qed
  then show ?thesis by (simp add: gen_ok_def)
qed

lemma gen_ok_generate:
  assumes "gen_ok os"
  shows "gen_ok (os\<lparr>current := current os + 1, records := store_record (JNum (current os)) v (records os)\<rparr>)"
proof (cases "max_generated < current os")
  case True
  then show ?thesis by (simp add: gen_ok_def)
next
  case False
  with assms have old: "\<forall>r \<in> set (records os). key_below (current os) (fst r)"
    by (simp add: gen_ok_def)
  have "key_below (current os + 1) (fst r)"
    if "r \<in> set (store_record (JNum (current os)) v (records os))" for r
  proof (cases "r = (JNum (current os), v)")
    case True
    then show ?thesis by simp
  next
    case neq: False
    with that have "r \<in> set (records os)" by (auto simp: set_store_record)
    with old have "key_below (current os) (fst r)" by blast
    then show ?thesis by (rule key_below_mono) simp
  qed
  then show ?thesis by (simp add: gen_ok_def)
qed

lemma gen_ok_subset:
  "gen_ok os \<Longrightarrow> set rs \<subseteq> set (records os) \<Longrightarrow> gen_ok (os\<lparr>records := rs\<rparr>)"
  by (auto simp: gen_ok_def)

lemma conforms_alt:
  "conforms store os \<longleftrightarrow>
     keyPath os = keyPath (new_store store) \<and>
     autoIncrement os = autoIncrement (new_store store) \<and>
     indexes os = indexes (new_store store) \<and>
     distinct (map fst (records os)) \<and>
     (\<forall>r \<in> set (records os). extract_key (keyPath os) False (snd r) = Key (fst r)) \<and>
     (autoIncrement os \<longrightarrow> gen_ok os)"
  by (simp add: conforms_def gen_ok_def)

lemma conforms_store_value:
  assumes "conforms store os" and "store_value b v os = Inr os'"
  shows "conforms store os'"
proof (cases "extract_key (keyPath os) False v")
  case Failure
  with assms(2) have auto_inc: "autoIncrement os" and inj: "injectable v"
    and os': "os' = os\<lparr>current := current os + 1,
        records := store_record (JNum (current os)) (inject_key (keyPath os) (JNum (current os)) v) (records os)\<rparr>"
    by (auto simp: store_value_def put_at_def split: if_splits)
  from assms(1) auto_inc have "gen_ok os" by (simp add: conforms_alt)
  then have "gen_ok os'" unfolding os' by (rule gen_ok_generate)
  with assms(1) inj show ?thesis
    by (auto simp: conforms_alt os' distinct_store_record set_store_record extract_key_inject)
next
  case Invalid
  with assms(2) show ?thesis by (simp add: store_value_def)
next
  case (Key k)
  show ?thesis
  proof (cases "autoIncrement os")
    case True
    with Key assms(2) have os': "os' = (bump_generator k os)\<lparr>records := store_record k v (records os)\<rparr>"
      by (auto simp: store_value_def put_at_def split: if_splits)
    from assms(1) True have "gen_ok os" by (simp add: conforms_alt)
    then have "gen_ok os'" unfolding os' by (rule gen_ok_put)
    with assms(1) Key show ?thesis
      by (auto simp: conforms_alt os' distinct_store_record set_store_record)
  next
    case False
    with Key assms(2) have os': "os' = os\<lparr>records := store_record k v (records os)\<rparr>"
      by (auto simp: store_value_def put_at_def split: if_splits)
    with assms(1) False Key show ?thesis
      by (auto simp: conforms_alt distinct_store_record set_store_record)
  qed
qed

lemma conforms_run:
  assumes "conforms store os" and "run r os = Inr os'"
  shows "conforms store os'"
proof (cases r)
  case (WPut v)
  with assms show ?thesis by (auto intro: conforms_store_value)
next
  case (WAdd v)
  with assms show ?thesis by (auto intro: conforms_store_value)
next
  case (WDelete k)
  with assms have os': "os' = os\<lparr>records := delete_record k (records os)\<rparr>" by auto
  have sub: "set (delete_record k (records os)) \<subseteq> set (records os)"
    by (auto simp: delete_record_def)
  then have "gen_ok os \<Longrightarrow> gen_ok os'" unfolding os' by (rule gen_ok_subset[rotated])
  moreover from assms(1) have "\<forall>r \<in> set (records os). extract_key (keyPath os) False (snd r) = Key (fst r)"
    unfolding conforms_alt by blast
  with sub have "\<forall>r \<in> set (delete_record k (records os)).
      extract_key (keyPath os) False (snd r) = Key (fst r)"
    by blast
  ultimately show ?thesis
    using assms(1) unfolding conforms_alt os' by (simp add: distinct_delete_record)
next
  case WClear
  with assms have os': "os' = os\<lparr>records := []\<rparr>" by auto
  with assms(1) show ?thesis by (auto simp: conforms_alt intro: gen_ok_subset)
qed

lemma schema_ok_D:
  "schema_ok d \<Longrightarrow> store \<in> set STORES \<Longrightarrow> \<exists>os. d store = Some os \<and> conforms store os"
  by (auto simp: schema_ok_def split: option.splits)

lemma schema_ok_execute:
  assumes "schema_ok d" and "execute r d = Inr d'"
  shows "schema_ok d'"
proof -
  from assms(2) obtain os os' where os: "d (fst r) = Some os" "run (snd r) os = Inr os'"
    and d': "d' = d(fst r \<mapsto> os')"
    by (auto simp: execute_def split: option.splits sum.splits)
  have "case d' store of None \<Rightarrow> False | Some os \<Rightarrow> conforms store os" if "store \<in> set STORES" for store
  proof (cases "store = fst r")
    case True
    from schema_ok_D[OF assms(1) that] True os have "conforms store os" by auto
    then have "conforms store os'" using os(2) by (rule conforms_run)
    with True d' show ?thesis by simp
  next
    case False
    with schema_ok_D[OF assms(1) that] d' show ?thesis by auto
  qed
  then show ?thesis by (simp add: schema_ok_def)
qed

lemma schema_ok_answer_all:
  "schema_ok d \<Longrightarrow> answer_all rs d orc = (Inr d', orc') \<Longrightarrow> schema_ok d'"
proof (induction rs arbitrary: d orc)
  case Nil
  then show ?case by simp
next
  case (Cons r rs)
  then show ?case
    by (auto split: prod.splits outcome.splits sum.splits dest: schema_ok_execute)
qed

lemma settle_fields [simp]:
  "db (settle s) = db s" "listeners (settle s) = listeners s" "trace (settle s) = trace s"
  "now (settle s) = now s" "seed_json (settle s) = seed_json s" "idb_version (settle s) = idb_version s"
  "pending (settle s) = None"
  by (auto simp: settle_def split: option.splits prod.splits sum.splits outcome.splits)

lemma settle_idle: "pending s = None \<Longrightarrow> settle s = s"
  by (simp add: settle_def)

lemma settle_settle [simp]: "settle (settle s) = settle s"
  by (simp add: settle_idle)

lemma ready_settle: "ready s \<Longrightarrow> ready (settle s)"
  by (auto simp: ready_def settle_def split: option.splits prod.splits sum.splits outcome.splits
      dest: schema_ok_answer_all)

lemma schema_ok_committed: "ready s \<Longrightarrow> schema_ok (committed s)"
  using ready_settle[of s] by (simp add: ready_def committed_def)

section \<open>Awaiting, transactions and answers\<close>

lemma await_Inl: "m s = (Inl e, s') \<Longrightarrow> await m f s = (Inl e, s')"
  by (simp add: await_def)

lemma await_Inr: "m s = (Inr x, s') \<Longrightarrow> await m f s = f x s'"
  by (simp add: await_def)

lemma await_assoc: "await (await m f) g = await m (\<lambda>x. await (f x) g)"
  by (rule ext) (simp add: await_def split: prod.splits sum.splits)

lemma await_Inr_iff:
  "await m f s = (Inr y, s') \<longleftrightarrow> (\<exists>x s1. m s = (Inr x, s1) \<and> f x s1 = (Inr y, s'))"
  by (auto simp: await_def split: prod.splits sum.splits)

lemma open_db_connected: "db s \<noteq> None \<Longrightarrow> open_db s = (Inr (), s)"
  by (simp add: open_db_def)

lemma transaction_with_connected:
  "db s = Some Live \<Longrightarrow> transaction_with open_db names m s = db_transaction names m s"
  by (simp add: transaction_with_def await_def open_db_connected)

lemma transaction_with_reentered:
  "transaction_with reentered names m s = db_transaction names m s"
  by (simp add: transaction_with_def await_def reentered_def)

lemma db_transaction_live:
  "db s = Some Live \<Longrightarrow>
   db_transaction names m s =
     (if \<exists>n \<in> set names. committed s n = None then (Inl NotFoundError, settle s)
      else (Inr \<lparr>scope = names, mode = m, work = committed s\<rparr>, settle s))"
  by (simp add: db_transaction_def committed_def)

lemma db_transaction_settle:
  "db s = Some Live \<Longrightarrow> db_transaction names m s = db_transaction names m (settle s)"
  by (simp add: db_transaction_live committed_def)

lemma answer_all_quiet: "answer_all rs d [] = (execute_all rs d, [])"
  by (induction rs arbitrary: d) (auto split: sum.splits)

lemma answer_all_Done:
  "execute_all rs1 d = Inr d' \<Longrightarrow>
   answer_all (rs1 @ rs2) d (replicate (length rs1) Done @ rest) = answer_all rs2 d' rest"
  by (induction rs1 arbitrary: d) (auto split: sum.splits)

lemma answer_all_all_Done:
  "execute_all rs d = Inr d' \<Longrightarrow> answer_all rs d (replicate (length rs) Done @ rest) = (Inr d', rest)"
  using answer_all_Done[of rs d d' "[]" rest] by simp

lemma execute_all_append:
  "execute_all (rs1 @ rs2) d = (case execute_all rs1 d of Inl e \<Rightarrow> Inl e | Inr d' \<Rightarrow> execute_all rs2 d')"
  by (induction rs1 arbitrary: d) (auto split: sum.splits)

lemma execute_all_take:
  "execute_all rs d = Inr d' \<Longrightarrow> \<exists>d''. execute_all (take k rs) d = Inr d''"
  using execute_all_append[of "take k rs" "drop k rs" d] by (auto split: sum.splits)

lemma answer_all_Failed:
  "execute_all rs d = Inr d' \<Longrightarrow> k < length rs \<Longrightarrow>
   answer_all rs d (replicate k Done @ Failed e # rest) = (Inl e, rest)"
proof (induction rs arbitrary: d k)
  case Nil
  then show ?case by simp
next
  case (Cons r rs)
  show ?case
  proof (cases k)
    case 0
    then show ?thesis by simp
  next
    case (Suc j)
    with Cons.prems obtain d1 where "execute r d = Inr d1" "execute_all rs d1 = Inr d'" "j < length rs"
      by (auto split: sum.splits)
    with Cons.IH[of d1 j] Suc show ?thesis by simp
  qed
qed

lemma first_thrown_None: "first_thrown tx rs = None \<longleftrightarrow> (\<forall>r \<in> set rs. throws tx r = None)"
  by (induction rs) (auto split: option.splits)

lemma settle_quiet:
  "answers s = [] \<Longrightarrow> answers (settle s) = []"
  by (auto simp: settle_def answer_all_quiet split: option.splits sum.splits)

text \<open>recordLog on an idle state with a quiet environment\<close>

lemma recordLog_quiet:
  assumes "db s = Some Live" "pending s = None" "answers s = []"
    and "idb s ''logs'' = Some os" "keyPath os = ''id''" "autoIncrement os"
  shows "recordLog_with open_db action payload s =
     (case execute (''logs'', WAdd (log_entry action payload (now s))) (idb s) of
        Inl e \<Rightarrow> (Inl e, s)
      | Inr d2 \<Rightarrow> (Inr (), s\<lparr>pending := Some \<lparr>pwork = d2, preqs = []\<rparr>,
                             trace := trace s @ deliveries ''logs:change'' (listeners s) (idb s)\<rparr>))"
proof -
  have chk: "check_value os (log_entry action payload (now s)) = None"
    using assms(5,6) by (simp add: check_value_def log_entry_def extract_key_def)
  show ?thesis
    using assms chk
    by (simp add: recordLog_with_def transaction_with_connected db_transaction_live committed_def
        settle_idle await_def request_all_def throws_def answer_all_quiet lift_def dispatch_def
        unattended_def split: sum.splits)
qed

section \<open>The writing methods\<close>

lemma schema_ok_execute_all:
  "schema_ok d \<Longrightarrow> execute_all rs d = Inr d' \<Longrightarrow> schema_ok d'"
  by (induction rs arbitrary: d) (auto split: sum.splits dest: schema_ok_execute)

lemma logs_in_STORES: "''logs'' \<in> set STORES"
  by (simp add: STORES_def)

lemma schema_ok_logs:
  assumes "schema_ok d"
  obtains os where "d ''logs'' = Some os" "keyPath os = ''id''" "autoIncrement os" "conforms ''logs'' os"
proof -
  from schema_ok_D[OF assms logs_in_STORES] obtain os where os: "d ''logs'' = Some os" "conforms ''logs'' os"
    by blast
  from os(2) have "keyPath os = ''id''" "autoIncrement os"
    by (simp_all add: conforms_def new_store_def createIndex_def createObjectStore_def)
  with os that show ?thesis by blast
qed

lemma quiet_update: "answers s = [] \<Longrightarrow> s\<lparr>answers := []\<rparr> = s"
  by (cases s) simp

lemma mutation_quiet:
  assumes "db s = Some Live" "schema_ok (idb s)" "pending s = None" "answers s = []"
    and "set names \<subseteq> set STORES"
  shows "mutation open_db names reqs action payload ev s =
     (case first_thrown \<lparr>scope = names, mode = ReadWrite, work = idb s\<rparr> reqs of
        Some e \<Rightarrow>
          (Inl e, s\<lparr>pending := Some \<lparr>pwork = idb s,
              preqs = filter (\<lambda>r. throws \<lparr>scope = names, mode = ReadWrite, work = idb s\<rparr> r = None) reqs\<rparr>\<rparr>)
      | None \<Rightarrow>
          (case execute_all reqs (idb s) of
             Inl e \<Rightarrow> (Inl e, s)
           | Inr d1 \<Rightarrow>
               (case execute (''logs'', WAdd (log_entry action payload (now s))) d1 of
                  Inl e \<Rightarrow> (Inl e, s\<lparr>idb := d1\<rparr>)
                | Inr d2 \<Rightarrow>
                    (Inr (), s\<lparr>idb := d1, pending := Some \<lparr>pwork = d2, preqs = []\<rparr>,
                       trace := trace s @ deliveries ''logs:change'' (listeners s) d1
                                @ deliveries ev (listeners s) d1\<rparr>))))"
proof -
  let ?tx = "\<lparr>scope = names, mode = ReadWrite, work = idb s\<rparr>"
  have names: "\<not> (\<exists>n \<in> set names. committed s n = None)"
    using assms(2,3,5) schema_ok_D[OF assms(2)] by (auto simp: committed_def settle_idle)
  have tx: "transaction_with open_db names ReadWrite s = (Inr ?tx, s)"
    using assms(1,3) names by (simp add: transaction_with_connected db_transaction_live committed_def settle_idle)
  show ?thesis
  proof (cases "first_thrown ?tx reqs")
    case (Some e)
    then show ?thesis by (simp add: mutation_def await_def tx request_all_def)
  next
    case None
    show ?thesis
    proof (cases "execute_all reqs (idb s)")
      case (Inl e)
      with None assms(4) show ?thesis
        by (simp add: mutation_def await_def tx request_all_def answer_all_quiet quiet_update)
    next
      case (Inr d1)
      let ?s1 = "s\<lparr>idb := d1\<rparr>"
      from assms(2) Inr have "schema_ok d1" by (rule schema_ok_execute_all)
      then obtain os where os: "d1 ''logs'' = Some os" "keyPath os = ''id''" "autoIncrement os"
        by (rule schema_ok_logs)
      have log: "recordLog_with open_db action payload ?s1 =
         (case execute (''logs'', WAdd (log_entry action payload (now s))) d1 of
            Inl e \<Rightarrow> (Inl e, ?s1)
          | Inr d2 \<Rightarrow> (Inr (), ?s1\<lparr>pending := Some \<lparr>pwork = d2, preqs = []\<rparr>,
                             trace := trace s @ deliveries ''logs:change'' (listeners s) d1\<rparr>))"
        using recordLog_quiet[of ?s1 os action payload] assms(1,3,4) os by (simp split: sum.splits)
      have upto: "mutation open_db names reqs action payload ev s =
          await (recordLog_with open_db action payload) (\<lambda>_. lift (dispatch ev)) ?s1"
        using None Inr assms(4)
        by (simp add: mutation_def await_def tx request_all_def answer_all_quiet complete_def quiet_update)
      show ?thesis
        using None Inr
        by (simp add: upto await_def log lift_def dispatch_def split: sum.splits)
    qed
  qed
qed

lemma mutation_fails:
  assumes "db s = Some Live" "schema_ok (idb s)" "pending s = None"
    and "set names \<subseteq> set STORES"
    and "\<forall>r \<in> set reqs. throws \<lparr>scope = names, mode = ReadWrite, work = idb s\<rparr> r = None"
    and "execute_all reqs (idb s) = Inr d1"
    and "answers s = replicate k Done @ Failed e # rest" "k \<le> length reqs"
  shows "mutation open_db names reqs action payload ev s = (Inl e, s\<lparr>answers := rest\<rparr>)"
proof -
  let ?tx = "\<lparr>scope = names, mode = ReadWrite, work = idb s\<rparr>"
  have names: "\<not> (\<exists>n \<in> set names. committed s n = None)"
    using assms(2,3,4) schema_ok_D[OF assms(2)] by (auto simp: committed_def settle_idle)
  have tx: "transaction_with open_db names ReadWrite s = (Inr ?tx, s)"
    using assms(1,3) names by (simp add: transaction_with_connected db_transaction_live committed_def settle_idle)
  have none: "first_thrown ?tx reqs = None"
    using assms(5) by (simp add: first_thrown_None)
  show ?thesis
  proof (cases "k < length reqs")
    case True
    with assms(6,7) have "answer_all reqs (idb s) (answers s) = (Inl e, rest)"
      by (simp add: answer_all_Failed)
    then show ?thesis by (simp add: mutation_def await_def tx request_all_def none)
  next
    case False
    with assms(8) have k: "k = length reqs" by simp
    with assms(6,7) have "answer_all reqs (idb s) (answers s) = (Inr d1, Failed e # rest)"
      by (simp add: answer_all_all_Done)
    then show ?thesis by (simp add: mutation_def await_def tx request_all_def none complete_def)
  qed
qed

lemma mutation_settle:
  "db s = Some Live \<Longrightarrow>
   mutation open_db names reqs action payload ev s = mutation open_db names reqs action payload ev (settle s)"
  by (simp add: mutation_def await_def transaction_with_connected db_transaction_settle[of s])

lemma put_mutation:
  "put_with opn store v =
     await (mutation opn [store] [(store, WPut v)] ''put''
              (JObj [(''store'', JStr store), (''value'', v)]) (store @ '':change'')) (\<lambda>_. resolve v)"
  by (simp add: put_with_def mutation_def await_assoc)

lemma bulkPut_mutation:
  "bulkPut_with opn store vs =
     await (mutation opn [store] (map (\<lambda>v. (store, WPut v)) vs) ''bulkPut''
              (JObj [(''store'', JStr store), (''count'', JNum (int (length vs)))]) (store @ '':change''))
       (\<lambda>_. resolve vs)"
  by (simp add: bulkPut_with_def mutation_def await_assoc)

lemma delete_mutation:
  "delete_with opn store key =
     mutation opn [store] [(store, WDelete key)] ''delete''
       (JObj [(''store'', JStr store), (''key'', key)]) (store @ '':change'')"
  by (simp add: delete_with_def mutation_def)

lemma clearAll_mutation:
  "clearAll_with opn =
     mutation opn STORES (map (\<lambda>store. (store, WClear)) STORES) ''reset''
       (JObj [(''info'', JStr ''database cleared'')]) ''db:reset''"
  by (simp add: clearAll_with_def mutation_def)

lemma inject_log_entry: "inject_key ''id'' (JNum c) (log_entry a p t) = logged a p t c"
  by (simp add: log_entry_def logged_def)

lemma conforms_logs_fresh:
  assumes "conforms ''logs'' os" "current os \<le> max_generated"
  shows "JNum (current os) \<notin> fst ` set (records os)"
proof
  assume "JNum (current os) \<in> fst ` set (records os)"
  then obtain r where r: "r \<in> set (records os)" "fst r = JNum (current os)" by auto
  from assms have "\<forall>r \<in> set (records os). key_below (current os) (fst r)"
    by (simp add: conforms_def new_store_def createIndex_def createObjectStore_def)
  with r show False by auto
qed

lemma conforms_logs_fields:
  "conforms ''logs'' os \<Longrightarrow> keyPath os = ''id'' \<and> autoIncrement os"
  by (simp add: conforms_def new_store_def createIndex_def createObjectStore_def)

lemma log_add:
  assumes "d ''logs'' = Some os" "conforms ''logs'' os"
  shows "execute (''logs'', WAdd (log_entry a p t)) d =
     (if max_generated < current os then Inl ConstraintError
      else Inr (d(''logs'' \<mapsto> os\<lparr>current := current os + 1,
                   records := insert_sorted (JNum (current os)) (logged a p t (current os)) (records os)\<rparr>)))"
proof (cases "max_generated < current os")
  case True
  with assms conforms_logs_fields[OF assms(2)] show ?thesis
    by (simp add: execute_def store_value_def extract_key_def log_entry_def)
next
  case False
  then have "JNum (current os) \<notin> fst ` set (records os)"
    using conforms_logs_fresh[OF assms(2)] by simp
  then have fresh: "map_of (records os) (JNum (current os)) = None"
    and same: "store_record (JNum (current os)) (logged a p t (current os)) (records os)
        = insert_sorted (JNum (current os)) (logged a p t (current os)) (records os)"
    by (simp_all add: map_of_eq_None_iff store_record_fresh)
  have "extract_key ''id'' False (log_entry a p t) = Failure"
    by (simp add: extract_key_def log_entry_def)
  with False assms(1) conforms_logs_fields[OF assms(2)] fresh same show ?thesis
    by (simp add: execute_def store_value_def put_at_def inject_log_entry)
      (simp add: log_entry_def)
qed

lemma committed_idle: "pending s = None \<Longrightarrow> committed s = idb s"
  by (simp add: committed_def settle_idle)

lemma settle_unattended:
  "pending s = Some \<lparr>pwork = d, preqs = []\<rparr> \<Longrightarrow> answers s = [] \<Longrightarrow>
   settle s = s\<lparr>idb := d, pending := None\<rparr>"
  by (simp add: settle_def quiet_update)

lemma committed_unattended:
  "pending s = Some \<lparr>pwork = d, preqs = []\<rparr> \<Longrightarrow> answers s = [] \<Longrightarrow> committed s = d"
  by (simp add: committed_def settle_unattended)

lemma read_quiet:
  assumes "db s = Some Live" "answers s = []"
  shows "await (transaction_with open_db [store] ReadOnly) (\<lambda>tx. read_request tx store f) s =
     (case committed s store of
        None \<Rightarrow> (Inl NotFoundError, settle s)
      | Some os \<Rightarrow> (case f os of Inl e \<Rightarrow> (Inl e, settle s) | Inr r \<Rightarrow> (Inr r, settle s)))"
  using assms settle_quiet[OF assms(2)]
  by (auto simp: await_def transaction_with_connected db_transaction_live read_request_def
      quiet_update split: option.splits sum.splits)

lemma get_quiet:
  assumes "db s = Some Live" "answers s = []"
  shows "get store key s =
     (case committed s store of
        None \<Rightarrow> (Inl NotFoundError, settle s)
      | Some os \<Rightarrow> (case store_get os key of Inl e \<Rightarrow> (Inl e, settle s) | Inr r \<Rightarrow> (Inr r, settle s)))"
  unfolding get_def get_with_def using assms by (rule read_quiet)

lemma getAll_quiet:
  assumes "db s = Some Live" "answers s = []"
  shows "getAll store ixn q s =
     (case committed s store of
        None \<Rightarrow> (Inl NotFoundError, settle s)
      | Some os \<Rightarrow> (case store_getAll os ixn q of Inl e \<Rightarrow> (Inl e, settle s) | Inr r \<Rightarrow> (Inr r, settle s)))"
  unfolding getAll_def getAll_with_def using assms by (rule read_quiet)

lemma delete_record_absent: "map_of rs k = None \<Longrightarrow> delete_record k rs = rs"
proof -
  assume "map_of rs k = None"
  then have "k \<notin> fst ` set rs" by (simp add: map_of_eq_None_iff)
  then have "filter (\<lambda>r. fst r \<noteq> k) rs = rs" by (induction rs) auto
  then show ?thesis by (simp add: delete_record_def)
qed

lemma ready_live: "ready s \<Longrightarrow> db s = Some Live"
  by (simp add: ready_def)

lemma ready_settled:
  assumes "ready s"
  shows "db (settle s) = Some Live" "schema_ok (idb (settle s))" "pending (settle s) = None"
  using ready_settle[OF assms] by (simp_all add: ready_def)

lemma insert_sorted_values:
  "\<exists>xs ys. map snd rs = xs @ ys \<and> map snd (insert_sorted k v rs) = xs @ v # ys"
proof -
  obtain xs ys where "rs = xs @ ys" "insert_sorted k v rs = xs @ (k, v) # ys"
    using insert_sorted_split by blast
  then have "map snd rs = map snd xs @ map snd ys \<and>
      map snd (insert_sorted k v rs) = map snd xs @ v # map snd ys" by simp
  then show ?thesis by blast
qed



section \<open>The example state\<close>

lemma onupgradeneeded_empty:
  "onupgradeneeded Map.empty = (\<lambda>store. if store \<in> set STORES then Some (new_store store) else None)"
  by (rule ext) (simp add: onupgradeneeded_def STORES_def)

lemma example_store: "store \<in> set STORES \<Longrightarrow> idb example store = Some (new_store store)"
  by (simp add: example_def onupgradeneeded_empty)

lemma conforms_new_store: "conforms store (new_store store)"
  by (simp add: conforms_def new_store_def createIndex_def createObjectStore_def)

lemma schema_ok_fresh: "schema_ok (onupgradeneeded Map.empty)"
  by (simp add: schema_ok_def onupgradeneeded_empty conforms_new_store)

lemma ready_example: "ready example"
  by (simp add: ready_def example_def schema_ok_fresh)


lemma ready_answers: "ready (s\<lparr>answers := a\<rparr>) = ready s"
  by (simp add: ready_def)


lemma example_generator: "generator (committed example) = 1"
  by (simp add: committed_idle example_def generator_def onupgradeneeded_empty STORES_def
      new_store_def createIndex_def createObjectStore_def)


section \<open>What a writing method leaves\<close>

lemma with_entry_log_add:
  assumes "schema_ok d"
  shows "execute (''logs'', WAdd (log_entry a p t)) d =
     (if max_generated < generator d then Inl ConstraintError else Inr (with_entry a p t d))"
proof -
  from assms obtain ol where ol: "d ''logs'' = Some ol" "conforms ''logs'' ol"
    using schema_ok_logs by metis
  show ?thesis using log_add[of d ol a p t] ol by (simp add: generator_def with_entry_def)
qed

lemma mutation_result:
  assumes "ready s" "answers s = []" "set names \<subseteq> set STORES"
  shows "mutation open_db names reqs action payload ev s =
     (case first_thrown \<lparr>scope = names, mode = ReadWrite, work = committed s\<rparr> reqs of
        Some e \<Rightarrow>
          (Inl e, (settle s)\<lparr>pending := Some \<lparr>pwork = committed s,
              preqs = filter (\<lambda>r. throws \<lparr>scope = names, mode = ReadWrite, work = committed s\<rparr> r = None) reqs\<rparr>\<rparr>)
      | None \<Rightarrow>
          (case execute_all reqs (committed s) of
             Inl e \<Rightarrow> (Inl e, settle s)
           | Inr d1 \<Rightarrow>
               (if max_generated < generator d1 then (Inl ConstraintError, (settle s)\<lparr>idb := d1\<rparr>)
                else (Inr (), after_mutation s d1 action payload [ev]))))"
proof -
  note s0 = ready_settled[OF assms(1)]
  have quiet0: "answers (settle s) = []" using assms(2) by (rule settle_quiet)
  have d: "idb (settle s) = committed s" by (simp add: committed_def)
  have step: "mutation open_db names reqs action payload ev s
      = mutation open_db names reqs action payload ev (settle s)"
    using ready_live[OF assms(1)] by (rule mutation_settle)
  have log: "execute (''logs'', WAdd (log_entry action payload (now s))) d1 =
      (if max_generated < generator d1 then Inl ConstraintError
       else Inr (with_entry action payload (now s) d1))"
    if "execute_all reqs (committed s) = Inr d1" for d1
  proof -
    from s0(2) that have "schema_ok d1" unfolding d by (rule schema_ok_execute_all)
    then show ?thesis by (rule with_entry_log_add)
  qed
  show ?thesis
    unfolding step
    using mutation_quiet[OF s0(1) s0(2) s0(3) quiet0 assms(3), of reqs action payload ev] log
    by (auto simp: d after_mutation_def split: option.splits sum.splits)
qed

lemma mutation_ok:
  assumes "ready s" "answers s = []" "set names \<subseteq> set STORES"
    and "\<forall>r \<in> set reqs. throws \<lparr>scope = names, mode = ReadWrite, work = committed s\<rparr> r = None"
    and "execute_all reqs (committed s) = Inr d1" and "generator d1 \<le> max_generated"
  shows "mutation open_db names reqs action payload ev s = (Inr (), after_mutation s d1 action payload [ev])"
  using assms(4-6) by (simp add: mutation_result[OF assms(1-3)] first_thrown_None[symmetric])

lemma mutation_inv:
  assumes "ready s" "answers s = []" "set names \<subseteq> set STORES"
    and "mutation open_db names reqs action payload ev s = (Inr u, s')"
  obtains d1 where "execute_all reqs (committed s) = Inr d1" "generator d1 \<le> max_generated"
    "s' = after_mutation s d1 action payload [ev]"
  using assms(4) unfolding mutation_result[OF assms(1-3)]
  by (auto split: option.splits sum.splits if_splits)

lemma after_mutation_fields [simp]:
  "db (after_mutation s d1 a p evs) = db s"
  "listeners (after_mutation s d1 a p evs) = listeners s"
  "now (after_mutation s d1 a p evs) = now s"
  "seed_json (after_mutation s d1 a p evs) = seed_json s"
  "idb (after_mutation s d1 a p evs) = d1"
  "pending (after_mutation s d1 a p evs) = Some \<lparr>pwork = with_entry a p (now s) d1, preqs = []\<rparr>"
  "trace (after_mutation s d1 a p evs) =
     trace s @ deliveries ''logs:change'' (listeners s) d1
       @ concat (map (\<lambda>ev. deliveries ev (listeners s) d1) evs)"
  by (simp_all add: after_mutation_def)

lemma after_mutation_quiet [simp]:
  "answers s = [] \<Longrightarrow> answers (after_mutation s d1 a p evs) = []"
  by (simp add: after_mutation_def settle_quiet)

lemma committed_after_mutation:
  "answers s = [] \<Longrightarrow> committed (after_mutation s d1 a p evs) = with_entry a p (now s) d1"
  by (rule committed_unattended) simp_all

lemma schema_ok_with_entry:
  assumes "schema_ok d" "generator d \<le> max_generated"
  shows "schema_ok (with_entry a p t d)"
proof -
  have "execute (''logs'', WAdd (log_entry a p t)) d = Inr (with_entry a p t d)"
    using with_entry_log_add[OF assms(1)] assms(2) by simp
  with assms(1) show ?thesis by (rule schema_ok_execute)
qed

lemma ready_after_mutation:
  assumes "ready s" "schema_ok d1" "generator d1 \<le> max_generated"
  shows "ready (after_mutation s d1 a p evs)"
  using assms by (simp add: ready_def schema_ok_with_entry)

lemma stored_with_entry_other:
  "store \<noteq> ''logs'' \<Longrightarrow> stored (with_entry a p t d) store = stored d store"
  by (simp add: with_entry_def stored_def split: option.splits)

lemma with_entry_other:
  "store \<noteq> ''logs'' \<Longrightarrow> with_entry a p t d store = d store"
  by (simp add: with_entry_def split: option.splits)

lemma stored_with_entry_logs:
  "d ''logs'' \<noteq> None \<Longrightarrow>
   stored (with_entry a p t d) ''logs'' =
     insert_sorted (JNum (generator d)) (logged a p t (generator d)) (stored d ''logs'')"
  by (auto simp: with_entry_def stored_def generator_def)

lemma getAll_plain:
  assumes "db s = Some Live" "answers s = []" "committed s store \<noteq> None"
  shows "getAll store None q s = (Inr (map snd (stored (committed s) store)), settle s)"
  using assms(3) by (auto simp: getAll_quiet[OF assms(1,2)] store_getAll_def stored_def)

lemma get_plain:
  assumes "db s = Some Live" "answers s = []" "committed s store \<noteq> None" "valid_key k"
  shows "get store k s =
     (Inr (case map_of (stored (committed s) store) k of None \<Rightarrow> JUndef | Some v \<Rightarrow> v), settle s)"
  using assms(3,4) by (auto simp: get_quiet[OF assms(1,2)] store_get_def stored_def to_range_def)


section \<open>put\<close>

lemma extract_key_valid: "extract_key p False v = Key k \<Longrightarrow> valid_key k"
  by (auto simp: extract_key_def convert_to_key_def split: option.splits jsval.splits if_splits)

lemma key_of_valid: "key_of store v = Key k \<Longrightarrow> valid_key k"
  unfolding key_of_def by (rule extract_key_valid)

lemma conforms_keyPath: "conforms store os \<Longrightarrow> keyPath os = keyPath (new_store store)"
  by (simp add: conforms_def)

lemma autoIncrement_new_store: "autoIncrement (new_store store) \<longleftrightarrow> store = ''logs''"
  by (simp add: new_store_def createIndex_def createObjectStore_def)

lemma conforms_autoIncrement: "conforms store os \<Longrightarrow> autoIncrement os \<longleftrightarrow> store = ''logs''"
  by (simp add: conforms_def autoIncrement_new_store)

lemma bump_generator_room:
  "current os \<le> max_generated \<Longrightarrow> key_below max_generated k \<Longrightarrow>
   current (bump_generator k os) \<le> max_generated"
  by (cases k) (auto simp: bump_generator_def)

lemma throws_put:
  assumes "d store = Some os" "conforms store os" "key_of store v = Key k"
  shows "throws \<lparr>scope = [store], mode = ReadWrite, work = d\<rparr> (store, WPut v) = None"
  using assms conforms_keyPath[OF assms(2)] by (simp add: throws_def check_value_def key_of_def)

lemma execute_put:
  assumes "d store = Some os" "conforms store os" "key_of store v = Key k"
  obtains d1 where "execute (store, WPut v) d = Inr d1"
    and "stored d1 store = store_record k v (stored d store)"
    and "\<And>st. st \<noteq> store \<Longrightarrow> d1 st = d st"
    and "generator d \<le> max_generated \<Longrightarrow> (store = ''logs'' \<longrightarrow> key_below max_generated k) \<Longrightarrow>
         generator d1 \<le> max_generated"
proof -
  let ?os0 = "if autoIncrement os then bump_generator k os else os"
  let ?os1 = "?os0\<lparr>records := store_record k v (records os)\<rparr>"
  have key: "extract_key (keyPath os) False v = Key k"
    using assms(3) conforms_keyPath[OF assms(2)] by (simp add: key_of_def)
  have run: "execute (store, WPut v) d = Inr (d(store \<mapsto> ?os1))"
    using assms(1) key by (simp add: execute_def store_value_def put_at_def)
  have rec: "stored (d(store \<mapsto> ?os1)) store = store_record k v (stored d store)"
    using assms(1) by (simp add: stored_def)
  have gen: "generator (d(store \<mapsto> ?os1)) \<le> max_generated"
    if "generator d \<le> max_generated" "store = ''logs'' \<longrightarrow> key_below max_generated k"
    using that assms(1) conforms_autoIncrement[OF assms(2)]
    by (auto simp: generator_def bump_generator_room)
  from run rec gen that show ?thesis by simp
qed

lemma put_is_mutation:
  "put store v s = await (mutation open_db [store] [(store, WPut v)] ''put''
      (JObj [(''store'', JStr store), (''value'', v)]) (store @ '':change'')) (\<lambda>_. resolve v) s"
  by (simp add: put_def put_mutation)

lemma put_ok:
  assumes "ready s" "answers s = []" "store \<in> set STORES" "key_of store v = Key k"
    and "execute (store, WPut v) (committed s) = Inr d1" "generator d1 \<le> max_generated"
  shows "put store v s =
     (Inr v, after_mutation s d1 ''put'' (JObj [(''store'', JStr store), (''value'', v)]) [store @ '':change''])"
proof -
  from schema_ok_committed[OF assms(1)] assms(3) obtain os
    where os: "committed s store = Some os" "conforms store os"
    using schema_ok_D by metis
  have "mutation open_db [store] [(store, WPut v)] ''put''
      (JObj [(''store'', JStr store), (''value'', v)]) (store @ '':change'') s =
      (Inr (), after_mutation s d1 ''put'' (JObj [(''store'', JStr store), (''value'', v)]) [store @ '':change''])"
    using assms(3,5,6) throws_put[of "committed s" store os v k] os assms(4)
    by (intro mutation_ok[OF assms(1,2)]) simp_all
  then show ?thesis by (simp add: put_is_mutation await_def resolve_def)
qed

lemma with_entry_defined: "d store \<noteq> None \<Longrightarrow> with_entry a p t d store \<noteq> None"
  by (simp add: with_entry_def split: option.splits)

lemma map_of_with_entry:
  assumes "schema_ok d" "generator d \<le> max_generated" "map_of (stored d store) k = Some v"
  shows "map_of (stored (with_entry a p t d) store) k = Some v"
proof (cases "store = ''logs''")
  case False
  with assms(3) show ?thesis by (simp add: stored_with_entry_other)
next
  case True
  from assms(1) obtain ol where ol: "d ''logs'' = Some ol" "conforms ''logs'' ol"
    using schema_ok_logs by metis
  from assms(2) ol have "current ol \<le> max_generated" by (simp add: generator_def)
  with ol have fresh: "JNum (generator d) \<notin> fst ` set (stored d ''logs'')"
    using conforms_logs_fresh[of ol] by (simp add: generator_def stored_def)
  from assms(3) True have "k \<in> fst ` set (stored d ''logs'')"
    by (metis map_of_eq_None_iff option.distinct(1))
  with fresh have "k \<noteq> JNum (generator d)" by blast
  with assms(3) True ol(1) fresh show ?thesis
    by (simp add: stored_with_entry_logs map_of_insert_sorted)
qed


lemma put_step:
  assumes "ready s" "answers s = []" "store \<in> set STORES" "key_of store v = Key k"
    and "generator (committed s) \<le> max_generated"
    and "store = ''logs'' \<longrightarrow> key_below max_generated k"
  obtains d1 where
    "put store v s = (Inr v, after_mutation s d1 ''put''
        (JObj [(''store'', JStr store), (''value'', v)]) [store @ '':change''])"
    "execute (store, WPut v) (committed s) = Inr d1"
    "stored d1 store = store_record k v (stored (committed s) store)"
    "\<And>st. st \<noteq> store \<Longrightarrow> d1 st = committed s st"
    "schema_ok d1" "generator d1 \<le> max_generated"
proof -
  from schema_ok_committed[OF assms(1)] assms(3) obtain os
    where os: "committed s store = Some os" "conforms store os"
    using schema_ok_D by metis
  from execute_put[of "committed s" store os v k] os assms(4,5,6) obtain d1
    where d1: "execute (store, WPut v) (committed s) = Inr d1"
      "stored d1 store = store_record k v (stored (committed s) store)"
      "\<And>st. st \<noteq> store \<Longrightarrow> d1 st = committed s st"
      "generator d1 \<le> max_generated"
    by metis
  have "schema_ok d1"
    using schema_ok_committed[OF assms(1)] d1(1) by (rule schema_ok_execute)
  moreover have "put store v s = (Inr v, after_mutation s d1 ''put''
        (JObj [(''store'', JStr store), (''value'', v)]) [store @ '':change''])"
    using assms(1-4) d1(1,4) by (rule put_ok)
  ultimately show ?thesis using d1 that by blast
qed

lemma filter_key_insert_sorted:
  "k \<notin> fst ` set rs \<Longrightarrow> filter (\<lambda>r. fst r = k) (insert_sorted k v rs) = [(k, v)]"
proof (induction rs)
  case Nil
  then show ?case by simp
next
  case (Cons r rs)
  then have "filter (\<lambda>r. fst r = k) rs = []" by (auto simp: filter_empty_conv)
  with Cons show ?case by auto
qed

lemma filter_key_store_record: "filter (\<lambda>r. fst r = k) (store_record k v rs) = [(k, v)]"
  by (simp add: store_record_def filter_key_insert_sorted keys_delete_record)

lemma keys_store_record: "fst ` set (store_record k v rs) = insert k (fst ` set rs)"
  by (auto simp: set_store_record intro: rev_image_eqI)

lemma schema_ok_distinct:
  "schema_ok d \<Longrightarrow> store \<in> set STORES \<Longrightarrow> distinct (map fst (stored d store))"
  by (auto simp: stored_def conforms_def dest: schema_ok_D)

lemma generator_other: "d1 ''logs'' = d ''logs'' \<Longrightarrow> generator d1 = generator d"
  by (simp add: generator_def)

lemma generator_with_entry: "d ''logs'' \<noteq> None \<Longrightarrow> generator (with_entry a p t d) = generator d + 1"
  by (auto simp: generator_def with_entry_def)

lemma schema_ok_defined: "schema_ok d \<Longrightarrow> store \<in> set STORES \<Longrightarrow> d store \<noteq> None"
  by (auto dest: schema_ok_D)



section \<open>clearAll\<close>

lemma mutation_aborts:
  assumes "ready s" "set names \<subseteq> set STORES"
    and "\<forall>r \<in> set reqs. throws \<lparr>scope = names, mode = ReadWrite, work = committed s\<rparr> r = None"
    and "execute_all reqs (committed s) = Inr d1"
    and "answers (settle s) = replicate k Done @ Failed e # rest" "k \<le> length reqs"
  shows "mutation open_db names reqs action payload ev s = (Inl e, (settle s)\<lparr>answers := rest\<rparr>)"
proof -
  note s0 = ready_settled[OF assms(1)]
  have d: "idb (settle s) = committed s" by (simp add: committed_def)
  have "mutation open_db names reqs action payload ev (settle s) = (Inl e, (settle s)\<lparr>answers := rest\<rparr>)"
    using assms(2-6) by (intro mutation_fails[OF s0]) (simp_all add: d)
  then show ?thesis using mutation_settle[OF ready_live[OF assms(1)]] by simp
qed

lemma execute_clear:
  "d store = Some os \<Longrightarrow> execute (store, WClear) d = Inr (d(store \<mapsto> os\<lparr>records := []\<rparr>))"
  by (simp add: execute_def)

lemma cleared_Nil: "cleared [] d = d"
  by (simp add: cleared_def)

lemma cleared_Cons:
  "d store = Some os \<Longrightarrow> cleared (store # ss) d = cleared ss (d(store \<mapsto> os\<lparr>records := []\<rparr>))"
  by (rule ext) (auto simp: cleared_def)

lemma execute_all_clear:
  "\<forall>store \<in> set ss. d store \<noteq> None \<Longrightarrow>
   execute_all (map (\<lambda>store. (store, WClear)) ss) d = Inr (cleared ss d)"
proof (induction ss arbitrary: d)
  case Nil
  then show ?case by (simp add: cleared_Nil)
next
  case (Cons store ss)
  then obtain os where os: "d store = Some os" by auto
  let ?d' = "d(store \<mapsto> os\<lparr>records := []\<rparr>)"
  from Cons.prems have "\<forall>st \<in> set ss. ?d' st \<noteq> None" by simp
  then have "execute_all (map (\<lambda>store. (store, WClear)) ss) ?d' = Inr (cleared ss ?d')"
    by (rule Cons.IH)
  with os show ?case by (simp add: execute_clear cleared_Cons)
qed

lemma stored_cleared: "store \<in> set ss \<Longrightarrow> stored (cleared ss d) store = []"
  by (simp add: cleared_def stored_def split: option.splits)

lemma generator_cleared: "generator (cleared ss d) = generator d"
  by (simp add: cleared_def generator_def split: option.splits)

lemma throws_clear:
  "store \<in> set names \<Longrightarrow> d store \<noteq> None \<Longrightarrow>
   throws \<lparr>scope = names, mode = ReadWrite, work = d\<rparr> (store, WClear) = None"
  by (auto simp: throws_def)

lemma clearAll_is_mutation:
  "clearAll = mutation open_db STORES (map (\<lambda>store. (store, WClear)) STORES) ''reset''
       (JObj [(''info'', JStr ''database cleared'')]) ''db:reset''"
  by (simp add: clearAll_def clearAll_mutation)

lemma clearAll_ok:
  assumes "ready s" "answers s = []" "generator (committed s) \<le> max_generated"
  shows "clearAll s = (Inr (), after_mutation s (cleared STORES (committed s)) ''reset''
           (JObj [(''info'', JStr ''database cleared'')]) [''db:reset''])"
proof -
  have defined: "\<forall>store \<in> set STORES. committed s store \<noteq> None"
    using schema_ok_committed[OF assms(1)] by (auto dest: schema_ok_defined)
  then have "execute_all (map (\<lambda>store. (store, WClear)) STORES) (committed s)
      = Inr (cleared STORES (committed s))"
    by (rule execute_all_clear)
  moreover have "\<forall>r \<in> set (map (\<lambda>store. (store, WClear)) STORES).
      throws \<lparr>scope = STORES, mode = ReadWrite, work = committed s\<rparr> r = None"
    using defined by (auto simp: throws_clear)
  ultimately show ?thesis
    unfolding clearAll_is_mutation using assms(3)
    by (intro mutation_ok[OF assms(1,2)]) (simp_all add: generator_cleared)
qed

lemma clearAll_aborts:
  assumes "ready s" "answers (settle s) = replicate k Done @ Failed e # rest" "k \<le> length STORES"
  shows "clearAll s = (Inl e, (settle s)\<lparr>answers := rest\<rparr>)"
proof -
  have defined: "\<forall>store \<in> set STORES. committed s store \<noteq> None"
    using schema_ok_committed[OF assms(1)] by (auto dest: schema_ok_defined)
  then have "execute_all (map (\<lambda>store. (store, WClear)) STORES) (committed s)
      = Inr (cleared STORES (committed s))"
    by (rule execute_all_clear)
  moreover have "\<forall>r \<in> set (map (\<lambda>store. (store, WClear)) STORES).
      throws \<lparr>scope = STORES, mode = ReadWrite, work = committed s\<rparr> r = None"
    using defined by (auto simp: throws_clear)
  ultimately show ?thesis
    unfolding clearAll_is_mutation using assms(2,3)
    by (intro mutation_aborts[OF assms(1)]) simp_all
qed

lemma schema_ok_cleared:
  assumes "schema_ok d"
  shows "schema_ok (cleared STORES d)"
proof -
  have "\<forall>store \<in> set STORES. d store \<noteq> None"
    using assms by (auto dest: schema_ok_defined)
  then have "execute_all (map (\<lambda>store. (store, WClear)) STORES) d = Inr (cleared STORES d)"
    by (rule execute_all_clear)
  with assms show ?thesis by (rule schema_ok_execute_all)
qed



section \<open>put, bulkPut and delete\<close>

lemma keyed_iff:
  "keyed (store, WPut v) \<longleftrightarrow> store \<in> set STORES \<and> (\<exists>k. key_of store v = Key k)"
  by (auto split: extracted.splits)

lemma keyed_cases:
  assumes "keyed r"
  obtains store v k where "r = (store, WPut v)" "store \<in> set STORES" "key_of store v = Key k"
proof (cases r)
  case (Pair store w)
  with assms obtain v where w: "w = WPut v" by (cases w) auto
  with assms Pair have "store \<in> set STORES" "\<exists>k. key_of store v = Key k"
    using keyed_iff[of store v] by auto
  with Pair w that show ?thesis by blast
qed

lemma throws_keyed:
  assumes "schema_ok d" "keyed r" "fst r \<in> set names"
  shows "throws \<lparr>scope = names, mode = ReadWrite, work = d\<rparr> r = None"
proof -
  from assms(2) obtain store v k where r: "r = (store, WPut v)" "store \<in> set STORES"
    "key_of store v = Key k" by (rule keyed_cases)
  from schema_ok_D[OF assms(1) r(2)] obtain os where os: "d store = Some os" "conforms store os"
    by blast
  with r(3) assms(3) conforms_keyPath[OF os(2)] show ?thesis
    by (simp add: r(1) throws_def check_value_def key_of_def)
qed



lemma bulkPut_is_mutation:
  "bulkPut store vs s =
     await (mutation open_db [store] (map (\<lambda>v. (store, WPut v)) vs) ''bulkPut''
              (JObj [(''store'', JStr store), (''count'', JNum (int (length vs)))]) (store @ '':change''))
       (\<lambda>_. resolve vs) s"
  by (simp add: bulkPut_def bulkPut_mutation)

lemma delete_is_mutation:
  "delete store key =
     mutation open_db [store] [(store, WDelete key)] ''delete''
       (JObj [(''store'', JStr store), (''key'', key)]) (store @ '':change'')"
  by (simp add: delete_def delete_mutation)






text \<open>What a resolved method has done\<close>

lemma put_inv:
  assumes "ready s" "answers s = []" "store \<in> set STORES" "put store v s = (Inr x, s')"
  obtains d1 where "x = v" "execute (store, WPut v) (committed s) = Inr d1"
    "generator d1 \<le> max_generated"
    "s' = after_mutation s d1 ''put'' (JObj [(''store'', JStr store), (''value'', v)]) [store @ '':change'']"
proof -
  from assms(4) obtain u s1 where m: "mutation open_db [store] [(store, WPut v)] ''put''
      (JObj [(''store'', JStr store), (''value'', v)]) (store @ '':change'') s = (Inr u, s1)"
    and r: "resolve v s1 = (Inr x, s')"
    unfolding put_is_mutation await_Inr_iff by blast
  from r have "x = v" "s' = s1" by (simp_all add: resolve_def)
  moreover from mutation_inv[OF assms(1,2) _ m] assms(3) obtain d1
    where "execute_all [(store, WPut v)] (committed s) = Inr d1" "generator d1 \<le> max_generated"
      "s1 = after_mutation s d1 ''put'' (JObj [(''store'', JStr store), (''value'', v)]) [store @ '':change'']"
    by auto
  ultimately show ?thesis using that by (auto split: sum.splits)
qed

lemma bulkPut_inv:
  assumes "ready s" "answers s = []" "store \<in> set STORES" "bulkPut store vs s = (Inr x, s')"
  obtains d1 where "x = vs" "execute_all (map (\<lambda>v. (store, WPut v)) vs) (committed s) = Inr d1"
    "generator d1 \<le> max_generated"
    "s' = after_mutation s d1 ''bulkPut''
            (JObj [(''store'', JStr store), (''count'', JNum (int (length vs)))]) [store @ '':change'']"
proof -
  from assms(4) obtain u s1 where m: "mutation open_db [store] (map (\<lambda>v. (store, WPut v)) vs) ''bulkPut''
      (JObj [(''store'', JStr store), (''count'', JNum (int (length vs)))]) (store @ '':change'') s
      = (Inr u, s1)"
    and r: "resolve vs s1 = (Inr x, s')"
    unfolding bulkPut_is_mutation await_Inr_iff by blast
  from r have "x = vs" "s' = s1" by (simp_all add: resolve_def)
  moreover from mutation_inv[OF assms(1,2) _ m] assms(3) obtain d1
    where "execute_all (map (\<lambda>v. (store, WPut v)) vs) (committed s) = Inr d1"
      "generator d1 \<le> max_generated"
      "s1 = after_mutation s d1 ''bulkPut''
            (JObj [(''store'', JStr store), (''count'', JNum (int (length vs)))]) [store @ '':change'']"
    by auto
  ultimately show ?thesis using that by auto
qed

lemma delete_inv:
  assumes "ready s" "answers s = []" "store \<in> set STORES" "delete store key s = (Inr x, s')"
  obtains d1 where "execute (store, WDelete key) (committed s) = Inr d1"
    "generator d1 \<le> max_generated"
    "s' = after_mutation s d1 ''delete'' (JObj [(''store'', JStr store), (''key'', key)]) [store @ '':change'']"
proof -
  from mutation_inv[OF assms(1,2) _ assms(4)[unfolded delete_is_mutation]] assms(3) obtain d1
    where "execute_all [(store, WDelete key)] (committed s) = Inr d1" "generator d1 \<le> max_generated"
      "s' = after_mutation s d1 ''delete'' (JObj [(''store'', JStr store), (''key'', key)]) [store @ '':change'']"
    by auto
  then show ?thesis using that by (auto split: sum.splits)
qed

lemma clearAll_inv:
  assumes "ready s" "answers s = []" "clearAll s = (Inr x, s')"
  shows "generator (committed s) \<le> max_generated"
    and "s' = after_mutation s (cleared STORES (committed s)) ''reset''
           (JObj [(''info'', JStr ''database cleared'')]) [''db:reset'']"
proof -
  have "\<forall>store \<in> set STORES. committed s store \<noteq> None"
    using schema_ok_committed[OF assms(1)] by (auto dest: schema_ok_defined)
  then have run: "execute_all (map (\<lambda>store. (store, WClear)) STORES) (committed s)
      = Inr (cleared STORES (committed s))"
    by (rule execute_all_clear)
  from mutation_inv[OF assms(1,2) _ assms(3)[unfolded clearAll_is_mutation]] obtain d1
    where d1: "execute_all (map (\<lambda>store. (store, WClear)) STORES) (committed s) = Inr d1"
      "generator d1 \<le> max_generated"
      "s' = after_mutation s d1 ''reset'' (JObj [(''info'', JStr ''database cleared'')]) [''db:reset'']"
    by auto
  with run have "d1 = cleared STORES (committed s)" by simp
  with d1 show "generator (committed s) \<le> max_generated"
    and "s' = after_mutation s (cleared STORES (committed s)) ''reset''
           (JObj [(''info'', JStr ''database cleared'')]) [''db:reset'']"
    by (simp_all add: generator_cleared)
qed


section \<open>seed\<close>

lemma passes_open_db: "passes open_db"
  by (simp add: passes_def open_db_connected)


lemma transaction_with_passes:
  "passes opn \<Longrightarrow> db s = Some Live \<Longrightarrow> transaction_with opn names m s = db_transaction names m s"
  by (simp add: transaction_with_def await_def passes_def)

lemma recordLog_passes:
  assumes "passes opn" "db s = Some Live"
  shows "recordLog_with opn action payload s = recordLog_with open_db action payload s"
  using assms by (simp add: recordLog_with_def await_def transaction_with_passes passes_open_db Let_def)


lemma key_of_marker: "key_of ''meta'' (seed_marker t) = Key (JStr ''seeded'')"
  by (simp add: key_of_def seed_marker_def new_store_def createObjectStore_def extract_key_def
      convert_to_key_def)

lemma meta_in_STORES: "''meta'' \<in> set STORES"
  by (simp add: STORES_def)

lemma keyed_marker: "keyed (''meta'', WPut (seed_marker t))"
  by (simp add: keyed_iff meta_in_STORES key_of_marker)

lemma seed_with_result:
  assumes "passes opn" "ready s" "answers s = []"
  shows "seed_with opn s =
     (case first_thrown \<lparr>scope = STORES, mode = ReadWrite, work = committed s\<rparr>
             (seed_requests (seed_json s)) of
        Some e \<Rightarrow>
          (Inl e, (settle s)\<lparr>pending := Some \<lparr>pwork = committed s,
              preqs = filter (\<lambda>r. throws \<lparr>scope = STORES, mode = ReadWrite, work = committed s\<rparr> r = None)
                        (seed_requests (seed_json s))\<rparr>\<rparr>)
      | None \<Rightarrow>
          (case execute_all (seed_requests (seed_json s)) (committed s) of
             Inl e \<Rightarrow> (Inl e, settle s)
           | Inr dA \<Rightarrow>
               (case execute (''meta'', WPut (seed_marker (now s))) dA of
                  Inl e \<Rightarrow> (Inl e, settle s)
                | Inr d1 \<Rightarrow>
                    (if max_generated < generator d1 then (Inl ConstraintError, (settle s)\<lparr>idb := d1\<rparr>)
                     else (Inr (), after_mutation s d1 ''seed''
                             (JObj [(''info'', JStr ''Seed database loaded'')]) [])))))"
proof -
  let ?A = "seed_requests (seed_json s)"
  let ?tx = "\<lparr>scope = STORES, mode = ReadWrite, work = committed s\<rparr>"
  let ?payload = "JObj [(''info'', JStr ''Seed database loaded'')]"
  note s0 = ready_settled[OF assms(2)]
  have live: "db s = Some Live" using assms(2) by (rule ready_live)
  have quiet0: "answers (settle s) = []" using assms(3) by (rule settle_quiet)
  have quiet0': "(settle s)\<lparr>answers := []\<rparr> = settle s" using quiet0 by (rule quiet_update)
  have fetch: "fetch_seed s = (Inr (seed_json s), s)"
    using assms(3) by (simp add: fetch_seed_def quiet_update)
  have "\<not> (\<exists>n \<in> set STORES. committed s n = None)"
    using schema_ok_committed[OF assms(2)] by (auto dest: schema_ok_defined)
  then have tx: "db_transaction STORES ReadWrite s = (Inr ?tx, settle s)"
    using live by (simp add: db_transaction_live)
  show ?thesis
  proof (cases "first_thrown ?tx ?A")
    case (Some e)
    then show ?thesis by (simp add: seed_with_def await_def fetch tx request_all_def)
  next
    case None
    show ?thesis
    proof (cases "execute_all ?A (committed s)")
      case (Inl e)
      with None quiet0 quiet0' show ?thesis
        by (simp add: seed_with_def await_def fetch tx request_all_def answer_all_quiet)
    next
      case (Inr dA)
      have okA: "schema_ok dA"
        using schema_ok_committed[OF assms(2)] Inr by (rule schema_ok_execute_all)
      have nothrow: "throws \<lparr>scope = STORES, mode = ReadWrite, work = dA\<rparr>
          (''meta'', WPut (seed_marker (now s))) = None"
        using throws_keyed[OF okA keyed_marker, where names = STORES] by (simp add: meta_in_STORES)
      show ?thesis
      proof (cases "execute (''meta'', WPut (seed_marker (now s))) dA")
        case (Inl e)
        with None Inr nothrow quiet0 quiet0' show ?thesis
          by (simp add: seed_with_def await_def fetch tx request_all_def answer_all_quiet)
      next
        case d1: (Inr d1)
        let ?s2 = "(settle s)\<lparr>idb := d1\<rparr>"
        have ok1: "schema_ok d1" using okA d1 by (rule schema_ok_execute)
        then obtain ol where ol: "d1 ''logs'' = Some ol" "keyPath ol = ''id''" "autoIncrement ol"
          by (rule schema_ok_logs)
        have eq: "(settle s)\<lparr>answers := [], idb := d1\<rparr> = ?s2"
          using quiet0 by (cases "settle s") simp
        have upto: "seed_with opn s = recordLog_with opn ''seed'' ?payload ?s2"
          using None Inr nothrow d1 quiet0 quiet0'
          by (simp add: seed_with_def await_def fetch tx request_all_def answer_all_quiet complete_def eq)
        have "recordLog_with opn ''seed'' ?payload ?s2 = recordLog_with open_db ''seed'' ?payload ?s2"
          using assms(1) s0(1) by (intro recordLog_passes) simp_all
        also have "\<dots> =
           (case execute (''logs'', WAdd (log_entry ''seed'' ?payload (now s))) d1 of
              Inl e \<Rightarrow> (Inl e, ?s2)
            | Inr d2 \<Rightarrow> (Inr (), ?s2\<lparr>pending := Some \<lparr>pwork = d2, preqs = []\<rparr>,
                               trace := trace s @ deliveries ''logs:change'' (listeners s) d1\<rparr>))"
          using recordLog_quiet[of ?s2 ol "''seed''" ?payload] s0(1,3) quiet0 ol
          by (simp split: sum.splits)
        finally show ?thesis
          using None Inr d1 with_entry_log_add[OF ok1, of "''seed''" ?payload "now s"]
          by (simp add: upto after_mutation_def)
      qed
    qed
  qed
qed


lemma seed_inv:
  assumes "ready s" "answers s = []" "seed s = (Inr x, s')"
  obtains dA d1 where "execute_all (seed_requests (seed_json s)) (committed s) = Inr dA"
    "execute (''meta'', WPut (seed_marker (now s))) dA = Inr d1"
    "generator d1 \<le> max_generated"
    "s' = after_mutation s d1 ''seed'' (JObj [(''info'', JStr ''Seed database loaded'')]) []"
  using assms(3) unfolding seed_def seed_with_result[OF passes_open_db assms(1,2)]
  by (auto split: option.splits sum.splits if_splits)



section \<open>Indexes\<close>









lemma filter_concat_length:
  "length (filter P (concat xss)) = sum_list (map (\<lambda>xs. length (filter P xs)) xss)"
  by (induction xss) auto








section \<open>A failure while the entry of the log is added\<close>






section \<open>Handlers called and entries logged\<close>

lemma count_deliveries:
  "length (filter (\<lambda>d. event d = n \<and> handler d = h) (deliveries n' ls d))
     = (if n' = n then length (filter (\<lambda>l. l = (n, h)) ls) else 0)"
  by (induction ls) (auto simp: deliveries_def)

lemma count_distinct: "distinct ls \<Longrightarrow> x \<in> set ls \<Longrightarrow> length (filter (\<lambda>l. l = x) ls) = 1"
  by (induction ls) (auto simp: filter_empty_conv)



lemma trace_after_mutation:
  "take (length (trace s)) (trace (after_mutation s d1 a p evs)) = trace s"
  "drop (length (trace s)) (trace (after_mutation s d1 a p evs))
     = deliveries ''logs:change'' (listeners s) d1 @ concat (map (\<lambda>ev. deliveries ev (listeners s) d1) evs)"
  by simp_all


lemma count_logs_change_after_mutation:
  assumes "distinct (listeners s)" "(''logs:change'', h) \<in> set (listeners s)"
  shows "length (filter (\<lambda>d. event d = ''logs:change'' \<and> handler d = h)
            (drop (length (trace s)) (trace (after_mutation s d1 a p [ev]))))
         = (if ev = ''logs:change'' then 2 else 1)"
    and "length (filter (\<lambda>d. event d = ''logs:change'' \<and> handler d = h)
            (drop (length (trace s)) (trace (after_mutation s d1 a p [])))) = 1"
  using count_distinct[OF assms] by (simp_all add: count_deliveries)

lemma change_is_logs_change: "store @ '':change'' = ''logs:change'' \<longleftrightarrow> store = ''logs''"
proof -
  have "store @ '':change'' = ''logs'' @ '':change'' \<longleftrightarrow> store = ''logs''"
    by (rule append_same_eq)
  then show ?thesis by simp
qed

text \<open>The entry that a resolved method leaves in the log\<close>

lemma getAll_logs_after_mutation:
  assumes "db s = Some Live" "answers s = []" "schema_ok d1" "generator d1 \<le> max_generated"
  shows "\<exists>xs ys. map snd (stored d1 ''logs'') = xs @ ys \<and>
           getAll ''logs'' None JUndef (after_mutation s d1 a p evs)
             = (Inr (xs @ logged a p (now s) (generator d1) # ys), settle (after_mutation s d1 a p evs))"
proof -
  let ?s' = "after_mutation s d1 a p evs"
  have logs1: "d1 ''logs'' \<noteq> None" using assms(3) logs_in_STORES by (rule schema_ok_defined)
  have c: "committed ?s' = with_entry a p (now s) d1"
    using assms(2) by (rule committed_after_mutation)
  have "committed ?s' ''logs'' \<noteq> None" using logs1 by (simp add: c with_entry_defined)
  moreover have "db ?s' = Some Live" "answers ?s' = []" using assms(1,2) by simp_all
  ultimately have "getAll ''logs'' None JUndef ?s'
      = (Inr (map snd (stored (with_entry a p (now s) d1) ''logs'')), settle ?s')"
    using getAll_plain[of ?s' "''logs''"] by (simp add: c)
  moreover obtain xs ys where "map snd (stored d1 ''logs'') = xs @ ys"
    "map snd (insert_sorted (JNum (generator d1)) (logged a p (now s) (generator d1)) (stored d1 ''logs''))
      = xs @ logged a p (now s) (generator d1) # ys"
    using insert_sorted_values[of "stored d1 ''logs''" "JNum (generator d1)"
        "logged a p (now s) (generator d1)"] by blast
  ultimately show ?thesis using logs1 by (auto simp: stored_with_entry_logs)
qed

lemma keys_below_generator:
  assumes "schema_ok d" "generator d \<le> max_generated"
  shows "\<forall>r \<in> set (stored d ''logs''). key_below (generator d) (fst r)"
proof -
  from assms(1) obtain ol where ol: "d ''logs'' = Some ol" "conforms ''logs'' ol"
    using schema_ok_logs by metis
  from ol(2) have "autoIncrement ol" by (simp add: conforms_logs_fields)
  with ol(2) assms(2) ol(1) have "\<forall>r \<in> set (records ol). key_below (current ol) (fst r)"
    by (auto simp: conforms_def generator_def)
  with ol(1) show ?thesis by (simp add: stored_def generator_def)
qed

lemma length_stored_with_entry:
  "d ''logs'' \<noteq> None \<Longrightarrow>
   length (stored (with_entry a p t d) ''logs'') = Suc (length (stored d ''logs''))"
  by (simp add: stored_with_entry_logs length_insert_sorted)

text \<open>Requests never move the key generator back, and only \<^verbatim>\<open>delete\<close> and \<^verbatim>\<open>clear\<close> remove records\<close>

lemma run_generator: "run r os = Inr os' \<Longrightarrow> current os \<le> current os'"
proof (cases r)
  case (WPut v)
  assume "run r os = Inr os'"
  with WPut bump_generator_mono[of os] show ?thesis
    by (auto simp: store_value_def put_at_def split: extracted.splits if_splits)
next
  case (WAdd v)
  assume "run r os = Inr os'"
  with WAdd bump_generator_mono[of os] show ?thesis
    by (auto simp: store_value_def put_at_def split: extracted.splits if_splits)
qed auto

lemma execute_generator:
  assumes "execute r d = Inr d'"
  shows "generator d \<le> generator d'"
proof -
  from assms obtain os os' where os: "d (fst r) = Some os" "run (snd r) os = Inr os'"
    and d': "d' = d(fst r \<mapsto> os')"
    by (auto simp: execute_def split: option.splits sum.splits)
  show ?thesis
  proof (cases "fst r = ''logs''")
    case True
    with os d' run_generator[OF os(2)] show ?thesis by (simp add: generator_def)
  next
    case False
    with d' show ?thesis by (simp add: generator_def)
  qed
qed

lemma execute_all_generator: "execute_all rs d = Inr d' \<Longrightarrow> generator d \<le> generator d'"
proof (induction rs arbitrary: d)
  case Nil
  then show ?case by simp
next
  case (Cons r rs)
  then obtain d1 where "execute r d = Inr d1" "execute_all rs d1 = Inr d'"
    by (auto split: sum.splits)
  with Cons.IH[of d1] execute_generator[of r d d1] show ?case by simp
qed

lemma length_store_record_ge: "distinct (map fst rs) \<Longrightarrow> length rs \<le> length (store_record k v rs)"
  by (simp add: length_store_record)

lemma run_length:
  assumes "run r os = Inr os'" "distinct (map fst (records os))" "\<not> removes (store, r)"
  shows "length (records os) \<le> length (records os')"
proof (cases r)
  case (WPut v)
  with assms(1,2) show ?thesis
    by (auto simp: store_value_def put_at_def length_store_record_ge
        split: extracted.splits if_splits)
next
  case (WAdd v)
  with assms(1,2) show ?thesis
    by (auto simp: store_value_def put_at_def length_store_record_ge
        split: extracted.splits if_splits)
next
  case (WDelete k)
  with assms(3) show ?thesis by simp
next
  case WClear
  with assms(3) show ?thesis by simp
qed

lemma execute_length:
  assumes "execute r d = Inr d'" "schema_ok d" "\<not> removes r" "st \<in> set STORES"
  shows "length (stored d st) \<le> length (stored d' st)"
proof -
  from assms(1) obtain os os' where os: "d (fst r) = Some os" "run (snd r) os = Inr os'"
    and d': "d' = d(fst r \<mapsto> os')"
    by (auto simp: execute_def split: option.splits sum.splits)
  show ?thesis
  proof (cases "st = fst r")
    case True
    with schema_ok_distinct[OF assms(2,4)] os(1) have "distinct (map fst (records os))"
      by (simp add: stored_def)
    moreover from assms(3) have "\<not> removes (fst r, snd r)" by simp
    ultimately have "length (records os) \<le> length (records os')"
      using os(2) by (intro run_length)
    with True os(1) d' show ?thesis by (simp add: stored_def)
  next
    case False
    with d' show ?thesis by (simp add: stored_def)
  qed
qed

lemma execute_all_length:
  "execute_all rs d = Inr d' \<Longrightarrow> schema_ok d \<Longrightarrow> \<forall>r \<in> set rs. \<not> removes r \<Longrightarrow> st \<in> set STORES \<Longrightarrow>
   length (stored d st) \<le> length (stored d' st)"
proof (induction rs arbitrary: d)
  case Nil
  then show ?case by simp
next
  case (Cons r rs)
  then obtain d1 where d1: "execute r d = Inr d1" "execute_all rs d1 = Inr d'"
    by (auto split: sum.splits)
  from Cons.prems(2) d1(1) have "schema_ok d1" by (rule schema_ok_execute)
  with Cons.IH[of d1] d1(2) Cons.prems(3,4) have "length (stored d1 st) \<le> length (stored d' st)"
    by simp
  moreover have "length (stored d st) \<le> length (stored d1 st)"
    using d1(1) Cons.prems(2) _ Cons.prems(4) by (rule execute_length) (use Cons.prems(3) in simp)
  ultimately show ?case by simp
qed

lemma execute_delete_length:
  assumes "execute (store, WDelete key) d = Inr d'" "schema_ok d" "st \<in> set STORES"
  shows "length (stored d st) \<le> Suc (length (stored d' st))"
proof -
  from assms(1) obtain os where os: "d store = Some os"
    and d': "d' = d(store \<mapsto> os\<lparr>records := delete_record key (records os)\<rparr>)"
    by (auto simp: execute_def split: option.splits)
  show ?thesis
  proof (cases "st = store")
    case True
    with schema_ok_distinct[OF assms(2,3)] os have dist: "distinct (map fst (records os))"
      by (simp add: stored_def)
    have "length (records os) \<le> Suc (length (delete_record key (records os)))"
    proof (cases "key \<in> fst ` set (records os)")
      case True
      with dist show ?thesis by (simp add: length_delete_record)
    next
      case False
      then have "map_of (records os) key = None" by (simp add: map_of_eq_None_iff)
      then show ?thesis by (simp add: delete_record_absent)
    qed
    with True os d' show ?thesis by (simp add: stored_def)
  next
    case False
    with d' show ?thesis by (simp add: stored_def)
  qed
qed


section \<open>Subscribers\<close>


lemma subscribe_fields [simp]:
  "db (subscribe n h s) = db s" "idb (subscribe n h s) = idb s" "pending (subscribe n h s) = pending s"
  "answers (subscribe n h s) = answers s" "trace (subscribe n h s) = trace s"
  "now (subscribe n h s) = now s" "seed_json (subscribe n h s) = seed_json s"
  by (simp_all add: subscribe_def)


lemma execute_all_snoc:
  "execute_all rs d = Inr dA \<Longrightarrow> execute r dA = Inr d1 \<Longrightarrow> execute_all (rs @ [r]) d = Inr d1"
  by (simp add: execute_all_append)



section \<open>The entry appended to the log\<close>

lemma appends_after_mutation:
  assumes "ready s" "answers s = []" "schema_ok d1" "generator d1 \<le> max_generated"
    and "generator (committed s) \<le> generator d1"
  shows "appends s d1 a p (after_mutation s d1 a p evs)"
proof -
  let ?s' = "after_mutation s d1 a p evs"
  have logs1: "d1 ''logs'' \<noteq> None" using assms(3) logs_in_STORES by (rule schema_ok_defined)
  have c: "committed ?s' = with_entry a p (now s) d1"
    using assms(2) by (rule committed_after_mutation)
  have def: "committed ?s' ''logs'' \<noteq> None" using logs1 by (simp add: c with_entry_defined)
  have live: "db ?s' = Some Live" "answers ?s' = []"
    using ready_live[OF assms(1)] assms(2) by simp_all
  have "getAll ''logs'' None JUndef ?s' = (Inr (map snd (stored (committed ?s') ''logs'')), settle ?s')"
    using live def by (rule getAll_plain)
  moreover have "list_all (\<lambda>r. key_below (generator d1) (fst r)) (stored d1 ''logs'')"
    using keys_below_generator[OF assms(3,4)] by (simp add: list_all_iff)
  ultimately show ?thesis
    using assms(5) logs1
    by (simp add: appends_def c stored_with_entry_logs generator_with_entry length_insert_sorted)
qed

lemma seed_requests_put: "r \<in> set (seed_requests data) \<Longrightarrow> \<not> removes r"
  by (auto simp: seed_requests_def split: if_splits)



section \<open>open and the records of the seed\<close>

lemma connect_fields [simp]:
  "db (connect u) = Some Live" "pending (connect u) = pending u" "answers (connect u) = answers u"
  "listeners (connect u) = listeners u" "trace (connect u) = trace u" "now (connect u) = now u"
  "seed_json (connect u) = seed_json u" "idb_version (connect u) = DB_VERSION"
  by (simp_all add: connect_def)

lemma reload_fields [simp]:
  "db (reload s) = None" "pending (reload s) = None" "listeners (reload s) = []"
  "idb (reload s) = committed s" "trace (reload s) = trace s" "now (reload s) = now s"
  "seed_json (reload s) = seed_json s" "idb_version (reload s) = idb_version s"
  by (simp_all add: reload_def committed_def)













section \<open>C1: a failed transaction changes nothing\<close>




section \<open>C2: notifications follow the commit\<close>



section \<open>C3: the audit log\<close>

text \<open>
  Claim C3, as the code has it. In a state where \<^verbatim>\<open>open()\<close> has run and the environment fails
  nothing, whenever \<^verbatim>\<open>put\<close>, \<^verbatim>\<open>bulkPut\<close>, \<^verbatim>\<open>delete\<close>, \<^verbatim>\<open>seed\<close> or \<^verbatim>\<open>clearAll\<close> resolves, one
  entry has been added to \<^verbatim>\<open>logs\<close> as the method's own transaction left it: the entry
  carries the action name, the payload, the time of the call and, as \<^verbatim>\<open>id\<close>, the key that
  the generator gave; that key is above every number that is a key in \<^verbatim>\<open>logs\<close>, the
  generator has not moved back since the call and is one past the key afterwards; and
  \<^verbatim>\<open>getAll('logs')\<close> returns the collection with the entry. After \<^verbatim>\<open>put\<close>, \<^verbatim>\<open>bulkPut\<close> and
  \<^verbatim>\<open>seed\<close> the collection \<^verbatim>\<open>logs\<close> is longer than before the call, after \<^verbatim>\<open>delete\<close> it is not
  shorter, and after \<^verbatim>\<open>clearAll\<close> the entry of the reset is its only record.
\<close>

theorem one_entry_for_every_mutation:
  assumes "ready s" and "answers s = []" and "store \<in> set STORES"
  shows "(put store v s = (Inr x, s1) \<longrightarrow>
            (\<exists>d1. execute (store, WPut v) (committed s) = Inr d1 \<and>
                  appends s d1 ''put'' (JObj [(''store'', JStr store), (''value'', v)]) s1) \<and>
            length (stored (committed s) ''logs'') < length (stored (committed s1) ''logs'')) \<and>
         (bulkPut store vs s = (Inr xs, s2) \<longrightarrow>
            (\<exists>d1. execute_all (map (\<lambda>v. (store, WPut v)) vs) (committed s) = Inr d1 \<and>
                  appends s d1 ''bulkPut''
                    (JObj [(''store'', JStr store), (''count'', JNum (int (length vs)))]) s2) \<and>
            length (stored (committed s) ''logs'') < length (stored (committed s2) ''logs'')) \<and>
         (delete store key s = (Inr u3, s3) \<longrightarrow>
            (\<exists>d1. execute (store, WDelete key) (committed s) = Inr d1 \<and>
                  appends s d1 ''delete'' (JObj [(''store'', JStr store), (''key'', key)]) s3) \<and>
            length (stored (committed s) ''logs'') \<le> length (stored (committed s3) ''logs'')) \<and>
         (seed s = (Inr u4, s4) \<longrightarrow>
            (\<exists>d1. execute_all (seed_requests (seed_json s) @ [(''meta'', WPut (seed_marker (now s)))])
                    (committed s) = Inr d1 \<and>
                  appends s d1 ''seed'' (JObj [(''info'', JStr ''Seed database loaded'')]) s4) \<and>
            length (stored (committed s) ''logs'') < length (stored (committed s4) ''logs'')) \<and>
         (clearAll s = (Inr u5, s5) \<longrightarrow>
            appends s (cleared STORES (committed s)) ''reset''
              (JObj [(''info'', JStr ''database cleared'')]) s5 \<and>
            stored (committed s5) ''logs''
              = [(JNum (generator (committed s)),
                  logged ''reset'' (JObj [(''info'', JStr ''database cleared'')]) (now s)
                    (generator (committed s)))])"
proof -
  note ok0 = schema_ok_committed[OF assms(1)]
  have put: "(\<exists>d1. execute (store, WPut v) (committed s) = Inr d1 \<and>
        appends s d1 ''put'' (JObj [(''store'', JStr store), (''value'', v)]) s1) \<and>
      length (stored (committed s) ''logs'') < length (stored (committed s1) ''logs'')"
    if ok: "put store v s = (Inr x, s1)"
  proof -
    obtain d1 where d1: "execute (store, WPut v) (committed s) = Inr d1"
      "generator d1 \<le> max_generated"
      "s1 = after_mutation s d1 ''put''
        (JObj [(''store'', JStr store), (''value'', v)]) [store @ '':change'']"
      using put_inv[OF assms(1,2,3) ok] by blast
    have sch: "schema_ok d1" using ok0 d1(1) by (rule schema_ok_execute)
    have gen: "generator (committed s) \<le> generator d1" using d1(1) by (rule execute_generator)
    have app: "appends s d1 ''put'' (JObj [(''store'', JStr store), (''value'', v)]) s1"
      unfolding d1(3) using assms(1,2) sch d1(2) gen by (rule appends_after_mutation)
    have "length (stored (committed s) ''logs'') \<le> length (stored d1 ''logs'')"
      using d1(1) ok0 _ logs_in_STORES by (rule execute_length) simp
    with app d1(1) show ?thesis by (auto simp: appends_def)
  qed
  have bulk: "(\<exists>d1. execute_all (map (\<lambda>v. (store, WPut v)) vs) (committed s) = Inr d1 \<and>
        appends s d1 ''bulkPut''
          (JObj [(''store'', JStr store), (''count'', JNum (int (length vs)))]) s2) \<and>
      length (stored (committed s) ''logs'') < length (stored (committed s2) ''logs'')"
    if ok: "bulkPut store vs s = (Inr xs, s2)"
  proof -
    obtain d1 where d1: "execute_all (map (\<lambda>v. (store, WPut v)) vs) (committed s) = Inr d1"
      "generator d1 \<le> max_generated"
      "s2 = after_mutation s d1 ''bulkPut''
        (JObj [(''store'', JStr store), (''count'', JNum (int (length vs)))]) [store @ '':change'']"
      using bulkPut_inv[OF assms(1,2,3) ok] by blast
    have sch: "schema_ok d1" using ok0 d1(1) by (rule schema_ok_execute_all)
    have gen: "generator (committed s) \<le> generator d1" using d1(1) by (rule execute_all_generator)
    have app: "appends s d1 ''bulkPut''
        (JObj [(''store'', JStr store), (''count'', JNum (int (length vs)))]) s2"
      unfolding d1(3) using assms(1,2) sch d1(2) gen by (rule appends_after_mutation)
    have "length (stored (committed s) ''logs'') \<le> length (stored d1 ''logs'')"
      using d1(1) ok0 _ logs_in_STORES by (rule execute_all_length) auto
    with app d1(1) show ?thesis by (auto simp: appends_def)
  qed
  have del: "(\<exists>d1. execute (store, WDelete key) (committed s) = Inr d1 \<and>
        appends s d1 ''delete'' (JObj [(''store'', JStr store), (''key'', key)]) s3) \<and>
      length (stored (committed s) ''logs'') \<le> length (stored (committed s3) ''logs'')"
    if ok: "delete store key s = (Inr u3, s3)"
  proof -
    obtain d1 where d1: "execute (store, WDelete key) (committed s) = Inr d1"
      "generator d1 \<le> max_generated"
      "s3 = after_mutation s d1 ''delete''
        (JObj [(''store'', JStr store), (''key'', key)]) [store @ '':change'']"
      using delete_inv[OF assms(1,2,3) ok] by blast
    have sch: "schema_ok d1" using ok0 d1(1) by (rule schema_ok_execute)
    have gen: "generator (committed s) \<le> generator d1" using d1(1) by (rule execute_generator)
    have app: "appends s d1 ''delete'' (JObj [(''store'', JStr store), (''key'', key)]) s3"
      unfolding d1(3) using assms(1,2) sch d1(2) gen by (rule appends_after_mutation)
    have "length (stored (committed s) ''logs'') \<le> Suc (length (stored d1 ''logs''))"
      using d1(1) ok0 logs_in_STORES by (rule execute_delete_length)
    with app d1(1) show ?thesis by (auto simp: appends_def)
  qed
  have sd: "(\<exists>d1. execute_all (seed_requests (seed_json s) @ [(''meta'', WPut (seed_marker (now s)))])
          (committed s) = Inr d1 \<and>
        appends s d1 ''seed'' (JObj [(''info'', JStr ''Seed database loaded'')]) s4) \<and>
      length (stored (committed s) ''logs'') < length (stored (committed s4) ''logs'')"
    if ok: "seed s = (Inr u4, s4)"
  proof -
    obtain dA d1 where d1: "execute_all (seed_requests (seed_json s)) (committed s) = Inr dA"
      "execute (''meta'', WPut (seed_marker (now s))) dA = Inr d1"
      "generator d1 \<le> max_generated"
      "s4 = after_mutation s d1 ''seed'' (JObj [(''info'', JStr ''Seed database loaded'')]) []"
      using seed_inv[OF assms(1,2) ok] by blast
    let ?rs = "seed_requests (seed_json s) @ [(''meta'', WPut (seed_marker (now s)))]"
    have all: "execute_all ?rs (committed s) = Inr d1"
      using d1(1,2) by (rule execute_all_snoc)
    have sch: "schema_ok d1" using ok0 all by (rule schema_ok_execute_all)
    have gen: "generator (committed s) \<le> generator d1" using all by (rule execute_all_generator)
    have app: "appends s d1 ''seed'' (JObj [(''info'', JStr ''Seed database loaded'')]) s4"
      unfolding d1(4) using assms(1,2) sch d1(3) gen by (rule appends_after_mutation)
    have "length (stored (committed s) ''logs'') \<le> length (stored d1 ''logs'')"
      using all ok0 _ logs_in_STORES by (rule execute_all_length) (auto dest: seed_requests_put)
    with app all show ?thesis by (auto simp: appends_def)
  qed
  have clr: "appends s (cleared STORES (committed s)) ''reset''
        (JObj [(''info'', JStr ''database cleared'')]) s5 \<and>
      stored (committed s5) ''logs''
        = [(JNum (generator (committed s)),
            logged ''reset'' (JObj [(''info'', JStr ''database cleared'')]) (now s)
              (generator (committed s)))]"
    if ok: "clearAll s = (Inr u5, s5)"
  proof -
    note inv = clearAll_inv[OF assms(1,2) ok]
    have sch: "schema_ok (cleared STORES (committed s))" using ok0 by (rule schema_ok_cleared)
    have app: "appends s (cleared STORES (committed s)) ''reset''
        (JObj [(''info'', JStr ''database cleared'')]) s5"
      unfolding inv(2) using assms(1,2) sch
      by (rule appends_after_mutation) (simp_all add: generator_cleared inv(1))
    then show ?thesis
      by (simp add: appends_def generator_cleared stored_cleared logs_in_STORES)
  qed
  from put bulk del sd clr show ?thesis by blast
qed

theorem one_entry_for_every_mutation_witness:
  "(\<exists>d1. execute (''chats'', WPut (JObj [(''id'', JStr ''c1'')])) (committed example) = Inr d1 \<and>
         appends example d1 ''put'' (JObj [(''store'', JStr ''chats''), (''value'', JObj [(''id'', JStr ''c1'')])]) (snd (put ''chats'' (JObj [(''id'', JStr ''c1'')]) example))) \<and>
   length (stored (committed example) ''logs'')
     < length (stored (committed (snd (put ''chats'' (JObj [(''id'', JStr ''c1'')]) example))) ''logs'') \<and>
   (\<exists>d1. execute_all (map (\<lambda>v. (''chats'', WPut v)) [JObj [(''id'', JStr ''c1'')]]) (committed example) = Inr d1 \<and>
         appends example d1 ''bulkPut'' (JObj [(''store'', JStr ''chats''), (''count'', JNum 1)])
           (snd (bulkPut ''chats'' [JObj [(''id'', JStr ''c1'')]] example))) \<and>
   (\<exists>d1. execute (''chats'', WDelete (JStr ''c1'')) (committed example) = Inr d1 \<and>
         appends example d1 ''delete'' (JObj [(''store'', JStr ''chats''), (''key'', JStr ''c1'')])
           (snd (delete ''chats'' (JStr ''c1'') example))) \<and>
   (\<exists>d1. execute_all (seed_requests (seed_json example) @ [(''meta'', WPut (seed_marker (now example)))])
           (committed example) = Inr d1 \<and>
         appends example d1 ''seed'' (JObj [(''info'', JStr ''Seed database loaded'')])
           (snd (seed example))) \<and>
   stored (committed (snd (clearAll example))) ''logs''
     = [(JNum 1, logged ''reset'' (JObj [(''info'', JStr ''database cleared'')]) 1000 1)]"
proof -
  have "fst (put ''chats'' (JObj [(''id'', JStr ''c1'')]) example) = Inr (JObj [(''id'', JStr ''c1'')])"
    "fst (bulkPut ''chats'' [JObj [(''id'', JStr ''c1'')]] example) = Inr [JObj [(''id'', JStr ''c1'')]]"
    "fst (delete ''chats'' (JStr ''c1'') example) = Inr ()"
    "fst (seed example) = Inr ()"
    "fst (clearAll example) = Inr ()"
    by code_simp+
  then have ok:
    "put ''chats'' (JObj [(''id'', JStr ''c1'')]) example = (Inr (JObj [(''id'', JStr ''c1'')]), snd (put ''chats'' (JObj [(''id'', JStr ''c1'')]) example))"
    "bulkPut ''chats'' [JObj [(''id'', JStr ''c1'')]] example = (Inr [JObj [(''id'', JStr ''c1'')]], snd (bulkPut ''chats'' [JObj [(''id'', JStr ''c1'')]] example))"
    "delete ''chats'' (JStr ''c1'') example = (Inr (), snd (delete ''chats'' (JStr ''c1'') example))"
    "seed example = (Inr (), snd (seed example))"
    "clearAll example = (Inr (), snd (clearAll example))"
    by (simp_all add: prod_eq_iff)
  have quiet: "answers example = []" and now: "now example = 1000" by (simp_all add: example_def)
  have chats: "''chats'' \<in> set STORES" by (simp add: STORES_def)
  have gen: "generator (committed example) = 1"
    by (simp add: committed_idle example_def generator_def onupgradeneeded_empty STORES_def
        new_store_def createIndex_def createObjectStore_def)
  show ?thesis
    using one_entry_for_every_mutation[OF ready_example quiet chats,
        where v = "JObj [(''id'', JStr ''c1'')]" and x = "JObj [(''id'', JStr ''c1'')]" and ?s1.0 = "snd (put ''chats'' (JObj [(''id'', JStr ''c1'')]) example)"
          and vs = "[JObj [(''id'', JStr ''c1'')]]" and xs = "[JObj [(''id'', JStr ''c1'')]]" and ?s2.0 = "snd (bulkPut ''chats'' [JObj [(''id'', JStr ''c1'')]] example)"
          and key = "JStr ''c1''" and ?u3.0 = "()" and ?s3.0 = "snd (delete ''chats'' (JStr ''c1'') example)"
          and ?u4.0 = "()" and ?s4.0 = "snd (seed example)"
          and ?u5.0 = "()" and ?s5.0 = "snd (clearAll example)"] ok
    by (simp add: gen now)
qed

text \<open>
  The count of \<^verbatim>\<open>logs\<close> does go down: \<^verbatim>\<open>clearAll\<close> empties \<^verbatim>\<open>logs\<close> with the other
  collections before its own entry is added. After two calls of \<^verbatim>\<open>put\<close>, \<^verbatim>\<open>getAll('logs')\<close>
  returns two entries; after the \<^verbatim>\<open>clearAll\<close> that follows, one: the entry of the reset, under
  the key 3.
\<close>

theorem clearAll_shrinks_the_log:
  "fst (put ''chats'' (JObj [(''id'', JStr ''c1'')]) example) = Inr (JObj [(''id'', JStr ''c1'')]) \<and>
   fst (put ''chats'' (JObj [(''id'', JStr ''c1'')]) (snd (put ''chats'' (JObj [(''id'', JStr ''c1'')]) example))) = Inr (JObj [(''id'', JStr ''c1'')]) \<and>
   fst (getAll ''logs'' None JUndef (snd (put ''chats'' (JObj [(''id'', JStr ''c1'')]) (snd (put ''chats'' (JObj [(''id'', JStr ''c1'')]) example)))))
     = Inr [logged ''put'' (JObj [(''store'', JStr ''chats''), (''value'', JObj [(''id'', JStr ''c1'')])]) 1000 1, logged ''put'' (JObj [(''store'', JStr ''chats''), (''value'', JObj [(''id'', JStr ''c1'')])]) 1000 2] \<and>
   fst (clearAll (snd (put ''chats'' (JObj [(''id'', JStr ''c1'')]) (snd (put ''chats'' (JObj [(''id'', JStr ''c1'')]) example))))) = Inr () \<and>
   fst (getAll ''logs'' None JUndef (snd (clearAll (snd (put ''chats'' (JObj [(''id'', JStr ''c1'')]) (snd (put ''chats'' (JObj [(''id'', JStr ''c1'')]) example)))))))
     = Inr [logged ''reset'' (JObj [(''info'', JStr ''database cleared'')]) 1000 3]"
  by code_simp

section \<open>C4: clearAll\<close>

text \<open>
  Claim C4, as the code has it. In a state where \<^verbatim>\<open>open()\<close> has run, the environment fails
  nothing and the key generator of \<^verbatim>\<open>logs\<close> is not used up, \<^verbatim>\<open>clearAll()\<close> resolves;
  afterwards \<^verbatim>\<open>getAll(collection)\<close> returns the empty sequence for every collection of
  \<^verbatim>\<open>STORES\<close> except \<^verbatim>\<open>logs\<close>, for which it returns the one \<^verbatim>\<open>reset\<close> entry; the handlers
  called are the subscribers of \<^verbatim>\<open>logs:change\<close> (called by \<^verbatim>\<open>recordLog\<close>) and then those of
  \<^verbatim>\<open>db:reset\<close>, no others, and they are called when all collections are committed empty.
  The emptying is one transaction: when the environment fails one of its nine requests or
  its commit, \<^verbatim>\<open>clearAll()\<close> rejects with that failure and the state is what it was, but
  for the answers used.
\<close>

theorem clearAll_resets:
  assumes "ready s" and "answers s = []" and "generator (committed s) \<le> max_generated"
    and "ready t" and "answers (settle t) = replicate k Done @ Failed e # rest" and "k \<le> length STORES"
  shows "(\<exists>s'. clearAll s = (Inr (), s') \<and>
            (\<forall>store \<in> set STORES.
               getAll store None JUndef s' =
                 (Inr (if store = ''logs''
                       then [logged ''reset'' (JObj [(''info'', JStr ''database cleared'')]) (now s)
                               (generator (committed s))]
                       else []), settle s')) \<and>
            (\<forall>store \<in> set STORES. stored (idb s') store = []) \<and>
            trace s' = trace s @ deliveries ''logs:change'' (listeners s) (idb s')
                               @ deliveries ''db:reset'' (listeners s) (idb s')) \<and>
         clearAll t = (Inl e, (settle t)\<lparr>answers := rest\<rparr>)"
proof -
  let ?payload = "JObj [(''info'', JStr ''database cleared'')]"
  define d1 where "d1 = cleared STORES (committed s)"
  define s' where "s' = after_mutation s d1 ''reset'' ?payload [''db:reset'']"
  have ok: "clearAll s = (Inr (), s')"
    unfolding s'_def d1_def using assms(1-3) by (rule clearAll_ok)
  have schema1: "schema_ok d1"
    unfolding d1_def using schema_ok_committed[OF assms(1)] by (rule schema_ok_cleared)
  have live: "db s' = Some Live" and quiet: "answers s' = []"
    using ready_live[OF assms(1)] assms(2) by (simp_all add: s'_def)
  have c: "committed s' = with_entry ''reset'' ?payload (now s) d1"
    by (simp add: s'_def committed_after_mutation assms(2))
  have gen: "generator d1 = generator (committed s)" by (simp add: d1_def generator_cleared)
  have logs1: "d1 ''logs'' \<noteq> None" using schema1 logs_in_STORES by (rule schema_ok_defined)
  have empty: "stored d1 store = []" if "store \<in> set STORES" for store
    using that by (simp add: d1_def stored_cleared)
  have reads: "getAll store None JUndef s' =
      (Inr (if store = ''logs'' then [logged ''reset'' ?payload (now s) (generator (committed s))]
            else []), settle s')" if "store \<in> set STORES" for store
  proof -
    have "d1 store \<noteq> None" using schema1 that by (rule schema_ok_defined)
    then have defined: "committed s' store \<noteq> None" by (simp add: c with_entry_defined)
    have "map snd (stored (committed s') store) =
        (if store = ''logs'' then [logged ''reset'' ?payload (now s) (generator (committed s))] else [])"
      using empty[OF that] empty[OF logs_in_STORES] logs1 gen
      by (auto simp: c stored_with_entry_logs stored_with_entry_other)
    then show ?thesis using getAll_plain[OF live quiet defined] by simp
  qed
  have "\<forall>store \<in> set STORES. stored (idb s') store = []"
    using empty by (simp add: s'_def)
  moreover have "trace s' = trace s @ deliveries ''logs:change'' (listeners s) (idb s')
      @ deliveries ''db:reset'' (listeners s) (idb s')"
    by (simp add: s'_def)
  moreover have "clearAll t = (Inl e, (settle t)\<lparr>answers := rest\<rparr>)"
    using assms(4-6) by (rule clearAll_aborts)
  ultimately show ?thesis using ok reads by blast
qed

theorem clearAll_resets_witness:
  "(\<exists>s'. clearAll example = (Inr (), s') \<and>
      (\<forall>store \<in> set STORES.
         getAll store None JUndef s' =
           (Inr (if store = ''logs''
                 then [logged ''reset'' (JObj [(''info'', JStr ''database cleared'')]) (now example)
                         (generator (committed example))]
                 else []), settle s')) \<and>
      (\<forall>store \<in> set STORES. stored (idb s') store = []) \<and>
      trace s' = trace example @ deliveries ''logs:change'' (listeners example) (idb s')
                               @ deliveries ''db:reset'' (listeners example) (idb s')) \<and>
   clearAll (example\<lparr>answers := [Done, Done, Failed QuotaExceededError]\<rparr>)
     = (Inl QuotaExceededError,
        (settle (example\<lparr>answers := [Done, Done, Failed QuotaExceededError]\<rparr>))\<lparr>answers := []\<rparr>)"
proof -
  let ?t = "example\<lparr>answers := [Done, Done, Failed QuotaExceededError]\<rparr>"
  have "ready ?t" by (simp add: ready_answers ready_example)
  moreover have "answers (settle ?t) = replicate 2 Done @ Failed QuotaExceededError # []"
    by (simp add: settle_idle example_def numeral_2_eq_2)
  moreover have "2 \<le> length STORES" by (simp add: STORES_def)
  moreover have "answers example = []" by (simp add: example_def)
  moreover have "generator (committed example) \<le> max_generated"
    by (simp add: example_generator max_generated_def)
  ultimately show ?thesis
    using clearAll_resets[OF ready_example, of ?t 2 QuotaExceededError "[]"] by blast
qed

text \<open>
  \<^verbatim>\<open>clearAll()\<close> does publish one notification of a collection: \<^verbatim>\<open>recordLog\<close> dispatches
  \<^verbatim>\<open>logs:change\<close> for the entry it adds. With handler 2 subscribed to \<^verbatim>\<open>logs:change\<close> and
  handler 3 to \<^verbatim>\<open>db:reset\<close>, both are called.
\<close>

theorem clearAll_notifies_logs_change:
  "map (\<lambda>d. (event d, handler d)) (trace (snd (clearAll (subscribe ''db:reset'' 3 example))))
     = [(''logs:change'', 2), (''db:reset'', 3)]"
  by code_simp

section \<open>C5: index queries\<close>




section \<open>C6: overwriting\<close>

text \<open>
  Claim C6, as the code has it. In a state where \<^verbatim>\<open>open()\<close> has run and the environment fails
  nothing, for every collection of \<^verbatim>\<open>STORES\<close> other than \<^verbatim>\<open>logs\<close>: two calls of
  \<^verbatim>\<open>put\<close> with records that carry the same key both resolve; \<^verbatim>\<open>getAll\<close> of the collection
  returns as many records after the second call as after the first; \<^verbatim>\<open>get\<close> returns the
  second record, and the collection holds nothing else under the key. (The key generator
  of \<^verbatim>\<open>logs\<close> must have two keys left for the two entries logged.)
\<close>

theorem overwrite_keeps_count:
  assumes "ready s" and "answers s = []" and "store \<in> set STORES" and "store \<noteq> ''logs''"
    and "key_of store r1 = Key k" and "key_of store r2 = Key k"
    and "generator (committed s) < max_generated"
  shows "\<exists>s1 s2 all1 all2.
           put store r1 s = (Inr r1, s1) \<and> put store r2 s1 = (Inr r2, s2) \<and>
           getAll store None JUndef s1 = (Inr all1, settle s1) \<and>
           getAll store None JUndef s2 = (Inr all2, settle s2) \<and>
           length all2 = length all1 \<and>
           get store k s2 = (Inr r2, settle s2) \<and>
           filter (\<lambda>r. fst r = k) (stored (committed s2) store) = [(k, r2)]"
proof -
  let ?p1 = "JObj [(''store'', JStr store), (''value'', r1)]"
  let ?p2 = "JObj [(''store'', JStr store), (''value'', r2)]"
  let ?ev = "store @ '':change''"
  from assms(7) have room: "generator (committed s) \<le> max_generated" by simp
  from put_step[OF assms(1,2,3,5) room] assms(4) obtain d1 where d1:
    "put store r1 s = (Inr r1, after_mutation s d1 ''put'' ?p1 [?ev])"
    "stored d1 store = store_record k r1 (stored (committed s) store)"
    "\<And>st. st \<noteq> store \<Longrightarrow> d1 st = committed s st"
    "schema_ok d1" "generator d1 \<le> max_generated"
    by metis
  define s1 where "s1 = after_mutation s d1 ''put'' ?p1 [?ev]"
  have ready1: "ready s1" and quiet1: "answers s1 = []" and live1: "db s1 = Some Live"
    using assms(1,2) d1(4,5) ready_live[OF assms(1)] by (simp_all add: s1_def ready_after_mutation)
  have c1: "committed s1 = with_entry ''put'' ?p1 (now s) d1"
    by (simp add: s1_def committed_after_mutation assms(2))
  have gen1: "generator d1 = generator (committed s)"
    using d1(3)[of "''logs''"] assms(4) by (intro generator_other) simp
  have logs1: "d1 ''logs'' \<noteq> None" using d1(4) logs_in_STORES by (rule schema_ok_defined)
  have room1: "generator (committed s1) \<le> max_generated"
    using assms(7) gen1 logs1 by (simp add: c1 generator_with_entry)
  have st1: "stored (committed s1) store = stored d1 store"
    using assms(4) by (simp add: c1 stored_with_entry_other)
  from put_step[OF ready1 quiet1 assms(3,6) room1] assms(4) obtain d2 where d2:
    "put store r2 s1 = (Inr r2, after_mutation s1 d2 ''put'' ?p2 [?ev])"
    "stored d2 store = store_record k r2 (stored (committed s1) store)"
    "schema_ok d2" "generator d2 \<le> max_generated"
    by metis
  define s2 where "s2 = after_mutation s1 d2 ''put'' ?p2 [?ev]"
  have quiet2: "answers s2 = []" and live2: "db s2 = Some Live"
    using quiet1 live1 by (simp_all add: s2_def)
  have c2: "committed s2 = with_entry ''put'' ?p2 (now s1) d2"
    by (simp add: s2_def committed_after_mutation quiet1)
  have st2: "stored (committed s2) store = stored d2 store"
    using assms(4) by (simp add: c2 stored_with_entry_other)
  have def1: "committed s1 store \<noteq> None"
    using schema_ok_committed[OF ready1] assms(3) by (rule schema_ok_defined)
  have def2: "committed s2 store \<noteq> None"
    using d2(3) assms(3) assms(4) by (simp add: c2 with_entry_other schema_ok_defined)
  have all1: "getAll store None JUndef s1 = (Inr (map snd (stored d1 store)), settle s1)"
    using getAll_plain[OF live1 quiet1 def1] by (simp add: st1)
  have all2: "getAll store None JUndef s2 = (Inr (map snd (stored d2 store)), settle s2)"
    using getAll_plain[OF live2 quiet2 def2] by (simp add: st2)
  have "distinct (map fst (stored d1 store))" using d1(4) assms(3) by (rule schema_ok_distinct)
  moreover have "k \<in> fst ` set (stored d1 store)" by (simp add: d1(2) keys_store_record)
  ultimately have len: "length (stored d2 store) = length (stored d1 store)"
    by (simp add: d2(2) st1 length_store_record)
  have "map_of (stored (committed s2) store) k = Some r2"
    by (simp add: st2 d2(2) map_of_store_record)
  then have get2: "get store k s2 = (Inr r2, settle s2)"
    using get_plain[OF live2 quiet2 def2 key_of_valid[OF assms(6)]] by simp
  have only: "filter (\<lambda>r. fst r = k) (stored (committed s2) store) = [(k, r2)]"
    by (simp add: st2 d2(2) filter_key_store_record)
  from d1(1) d2(1) all1 all2 len get2 only show ?thesis
    unfolding s1_def[symmetric] s2_def[symmetric] by (metis length_map)
qed

theorem overwrite_keeps_count_witness:
  "\<exists>s1 s2 all1 all2.
     put ''chats'' (JObj [(''id'', JStr ''c1''), (''pinned'', JBool False)]) example
       = (Inr (JObj [(''id'', JStr ''c1''), (''pinned'', JBool False)]), s1) \<and>
     put ''chats'' (JObj [(''id'', JStr ''c1''), (''pinned'', JBool True)]) s1
       = (Inr (JObj [(''id'', JStr ''c1''), (''pinned'', JBool True)]), s2) \<and>
     getAll ''chats'' None JUndef s1 = (Inr all1, settle s1) \<and>
     getAll ''chats'' None JUndef s2 = (Inr all2, settle s2) \<and>
     length all2 = length all1 \<and>
     get ''chats'' (JStr ''c1'') s2
       = (Inr (JObj [(''id'', JStr ''c1''), (''pinned'', JBool True)]), settle s2) \<and>
     filter (\<lambda>r. fst r = JStr ''c1'') (stored (committed s2) ''chats'')
       = [(JStr ''c1'', JObj [(''id'', JStr ''c1''), (''pinned'', JBool True)])]"
proof -
  have "key_of ''chats'' (JObj [(''id'', JStr ''c1''), (''pinned'', JBool False)]) = Key (JStr ''c1'')"
    "key_of ''chats'' (JObj [(''id'', JStr ''c1''), (''pinned'', JBool True)]) = Key (JStr ''c1'')"
    by (simp_all add: key_of_def new_store_def createIndex_def createObjectStore_def extract_key_def
        convert_to_key_def)
  moreover have "generator (committed example) < max_generated"
    by (simp add: committed_idle example_def generator_def onupgradeneeded_empty STORES_def
        new_store_def createIndex_def createObjectStore_def max_generated_def)
  moreover have "''chats'' \<in> set STORES" "''chats'' \<noteq> ''logs''" "answers example = []"
    by (simp_all add: STORES_def example_def)
  ultimately show ?thesis
    using overwrite_keeps_count[OF ready_example, of "''chats''" _ "JStr ''c1''"] by simp
qed

text \<open>
  In \<^verbatim>\<open>logs\<close> the count does change: each \<^verbatim>\<open>put\<close> also appends its own entry there. After
  the first of two calls with the key \<^verbatim>\<open>a\<close>, \<^verbatim>\<open>getAll('logs')\<close> returns two records; after
  the second, three.
\<close>

theorem overwrite_changes_count_of_logs:
  "fst (put ''logs'' (JObj [(''id'', JStr ''a''), (''n'', JNum 1)]) example)
     = Inr (JObj [(''id'', JStr ''a''), (''n'', JNum 1)]) \<and>
   fst (put ''logs'' (JObj [(''id'', JStr ''a''), (''n'', JNum 2)])
          (snd (put ''logs'' (JObj [(''id'', JStr ''a''), (''n'', JNum 1)]) example)))
     = Inr (JObj [(''id'', JStr ''a''), (''n'', JNum 2)]) \<and>
   fst (getAll ''logs'' None JUndef
          (snd (put ''logs'' (JObj [(''id'', JStr ''a''), (''n'', JNum 1)]) example)))
     = Inr [logged ''put'' (JObj [(''store'', JStr ''logs''),
                                  (''value'', JObj [(''id'', JStr ''a''), (''n'', JNum 1)])]) 1000 1,
            JObj [(''id'', JStr ''a''), (''n'', JNum 1)]] \<and>
   fst (getAll ''logs'' None JUndef
          (snd (put ''logs'' (JObj [(''id'', JStr ''a''), (''n'', JNum 2)])
                 (snd (put ''logs'' (JObj [(''id'', JStr ''a''), (''n'', JNum 1)]) example)))))
     = Inr [logged ''put'' (JObj [(''store'', JStr ''logs''),
                                  (''value'', JObj [(''id'', JStr ''a''), (''n'', JNum 1)])]) 1000 1,
            logged ''put'' (JObj [(''store'', JStr ''logs''),
                                  (''value'', JObj [(''id'', JStr ''a''), (''n'', JNum 2)])]) 1000 2,
            JObj [(''id'', JStr ''a''), (''n'', JNum 2)]]"
  by code_simp

section \<open>C7: open and seed\<close>




section \<open>C8: absence is not an error\<close>

text \<open>
  Claim C8. In a state where \<^verbatim>\<open>open()\<close> has run and the environment fails nothing, for
  every collection of \<^verbatim>\<open>STORES\<close> and every valid key that the collection does not hold:
  \<^verbatim>\<open>get(collection, key)\<close> resolves with \<^verbatim>\<open>undefined\<close>, and \<^verbatim>\<open>delete(collection, key)\<close>
  resolves, after which \<^verbatim>\<open>getAll('logs')\<close> returns what \<^verbatim>\<open>logs\<close> held before with exactly
  one entry more, the entry of the action \<^verbatim>\<open>delete\<close>. (The key generator of \<^verbatim>\<open>logs\<close> must
  not be used up, or no entry can be added.)
\<close>

theorem absent_is_not_an_error:
  assumes "ready s" and "answers s = []" and "store \<in> set STORES" and "valid_key key"
    and "map_of (stored (committed s) store) key = None"
    and "generator (committed s) \<le> max_generated"
  shows "get store key s = (Inr JUndef, settle s) \<and>
    (\<exists>s' xs ys. delete store key s = (Inr (), s') \<and>
       map snd (stored (committed s) ''logs'') = xs @ ys \<and>
       getAll ''logs'' None JUndef s' =
         (Inr (xs @ logged ''delete'' (JObj [(''store'', JStr store), (''key'', key)]) (now s)
                     (generator (committed s)) # ys), settle s'))"
proof -
  let ?s0 = "settle s"
  let ?d = "committed s"
  let ?payload = "JObj [(''store'', JStr store), (''key'', key)]"
  note s0 = ready_settled[OF assms(1)]
  have quiet0: "answers ?s0 = []" using assms(2) by (rule settle_quiet)
  have d: "idb ?s0 = ?d" by (simp add: committed_def)
  from s0(2) assms(3) obtain os where os: "?d store = Some os" "conforms store os"
    using schema_ok_D d by metis
  from assms(5) os have absent: "map_of (records os) key = None" by (simp add: stored_def)
  have "store_get os key = Inr JUndef"
    using assms(4) absent by (simp add: store_get_def to_range_def)
  then have get: "get store key s = (Inr JUndef, settle s)"
    using os by (simp add: get_quiet ready_live[OF assms(1)] assms(2))
  from s0(2) obtain ol where ol: "?d ''logs'' = Some ol" "conforms ''logs'' ol"
    using schema_ok_logs d by metis
  from assms(6) ol have room: "\<not> max_generated < current ol" by (simp add: generator_def)
  have gen: "generator ?d = current ol" using ol by (simp add: generator_def)
  let ?tx = "\<lparr>scope = [store], mode = ReadWrite, work = idb ?s0\<rparr>"
  have thrown: "first_thrown ?tx [(store, WDelete key)] = None"
    using os assms(4) d by (simp add: throws_def)
  have "os\<lparr>records := delete_record key (records os)\<rparr> = os"
    using absent by (simp add: delete_record_absent)
  then have run: "execute_all [(store, WDelete key)] (idb ?s0) = Inr ?d"
    using os d by (simp add: execute_def fun_upd_idem)
  define ol' where "ol' = ol\<lparr>current := current ol + 1,
      records := insert_sorted (JNum (current ol)) (logged ''delete'' ?payload (now s) (current ol)) (records ol)\<rparr>"
  define d2 where "d2 = ?d(''logs'' \<mapsto> ol')"
  have add: "execute (''logs'', WAdd (log_entry ''delete'' ?payload (now s))) ?d = Inr d2"
    using log_add[of ?d ol] ol room by (simp add: d2_def ol'_def)
  define s' where "s' = ?s0\<lparr>idb := ?d, pending := Some \<lparr>pwork = d2, preqs = []\<rparr>,
      trace := trace ?s0 @ deliveries ''logs:change'' (listeners ?s0) ?d
               @ deliveries (store @ '':change'') (listeners ?s0) ?d\<rparr>"
  have "mutation open_db [store] [(store, WDelete key)] ''delete'' ?payload (store @ '':change'') ?s0
      = (Inr (), s')"
    using mutation_quiet[OF s0(1) s0(2) s0(3) quiet0, of "[store]" "[(store, WDelete key)]"
        "''delete''" ?payload "store @ '':change''"] assms(3) thrown run add
    by (simp add: s'_def)
  then have del: "delete store key s = (Inr (), s')"
    using mutation_settle[OF ready_live[OF assms(1)]]
    by (simp add: delete_def delete_mutation)
  have live': "db s' = Some Live" and quiet': "answers s' = []"
    and pend': "pending s' = Some \<lparr>pwork = d2, preqs = []\<rparr>"
    using s0(1) quiet0 by (simp_all add: s'_def)
  have "committed s' = d2"
    using pend' quiet' by (rule committed_unattended)
  then have "committed s' ''logs'' = Some ol'" by (simp add: d2_def)
  then have all: "getAll ''logs'' None JUndef s' = (Inr (map snd (records ol')), settle s')"
    by (simp add: getAll_quiet[OF live' quiet'] store_getAll_def)
  obtain xs ys where split: "map snd (records ol) = xs @ ys"
    "map snd (records ol') = xs @ logged ''delete'' ?payload (now s) (current ol) # ys"
    using insert_sorted_values[of "records ol" "JNum (current ol)"
        "logged ''delete'' ?payload (now s) (current ol)"] by (auto simp: ol'_def)
  have "map snd (stored ?d ''logs'') = xs @ ys" using ol split(1) by (simp add: stored_def)
  with del all split(2) gen have
    "\<exists>s' xs ys. delete store key s = (Inr (), s') \<and>
       map snd (stored ?d ''logs'') = xs @ ys \<and>
       getAll ''logs'' None JUndef s' =
         (Inr (xs @ logged ''delete'' ?payload (now s) (generator ?d) # ys), settle s')"
    by metis
  with get show ?thesis by blast
qed

theorem absent_is_not_an_error_witness:
  "get ''likes'' (JStr ''l1'') example = (Inr JUndef, settle example) \<and>
   (\<exists>s' xs ys. delete ''likes'' (JStr ''l1'') example = (Inr (), s') \<and>
      map snd (stored (committed example) ''logs'') = xs @ ys \<and>
      getAll ''logs'' None JUndef s' =
        (Inr (xs @ logged ''delete'' (JObj [(''store'', JStr ''likes''), (''key'', JStr ''l1'')])
                    (now example) (generator (committed example)) # ys), settle s'))"
proof -
  have idle: "committed example = idb example"
    by (simp add: committed_idle example_def)
  have "map_of (stored (committed example) ''likes'') (JStr ''l1'') = None"
    by (simp add: idle stored_def example_store STORES_def new_store_def createIndex_def
        createObjectStore_def)
  moreover have "generator (committed example) \<le> max_generated"
    by (simp add: idle generator_def example_store STORES_def new_store_def createIndex_def
        createObjectStore_def max_generated_def)
  moreover have "''likes'' \<in> set STORES" "valid_key (JStr ''l1'')" "answers example = []"
    by (simp_all add: STORES_def example_def)
  ultimately show ?thesis
    using absent_is_not_an_error[OF ready_example, of "''likes''" "JStr ''l1''"] by blast
qed

section \<open>C9: put is a faithful round trip\<close>

text \<open>
  Claim C9. In a state where \<^verbatim>\<open>open()\<close> has run and the environment fails nothing, for
  every collection of \<^verbatim>\<open>STORES\<close> and every record \<open>r\<close> that carries a valid key \<open>k\<close> at the
  key path of the collection: \<^verbatim>\<open>put(collection, r)\<close> resolves with \<open>r\<close>, the committed
  collection then holds exactly \<open>r\<close> under \<open>k\<close>, and a following \<^verbatim>\<open>get(collection, k)\<close>
  resolves with \<open>r\<close>. (The key generator of \<^verbatim>\<open>logs\<close> must be able to give the key of the
  entry that \<^verbatim>\<open>put\<close> logs: it is not used up, and a numeric key put into \<^verbatim>\<open>logs\<close> itself
  is below \<open>2^53\<close>.)
\<close>

theorem put_round_trip:
  assumes "ready s" and "answers s = []" and "store \<in> set STORES" and "key_of store r = Key k"
    and "generator (committed s) \<le> max_generated"
    and "store = ''logs'' \<longrightarrow> key_below max_generated k"
  shows "\<exists>s1. put store r s = (Inr r, s1) \<and>
           map_of (stored (idb s1) store) k = Some r \<and>
           get store k s1 = (Inr r, settle s1)"
proof -
  from schema_ok_committed[OF assms(1)] assms(3) obtain os
    where os: "committed s store = Some os" "conforms store os"
    using schema_ok_D by metis
  from execute_put[of "committed s" store os r k] os assms(4,5,6) obtain d1
    where d1: "execute (store, WPut r) (committed s) = Inr d1"
      "stored d1 store = store_record k r (stored (committed s) store)"
      "generator d1 \<le> max_generated"
    by metis
  define s1 where "s1 = after_mutation s d1 ''put'' (JObj [(''store'', JStr store), (''value'', r)])
      [store @ '':change'']"
  have put: "put store r s = (Inr r, s1)"
    unfolding s1_def using assms(1-4) d1(1,3) by (rule put_ok)
  have ok1: "schema_ok d1"
    using schema_ok_committed[OF assms(1)] d1(1) by (rule schema_ok_execute)
  have now: "map_of (stored d1 store) k = Some r"
    by (simp add: d1(2) map_of_store_record)
  then have persisted: "map_of (stored (idb s1) store) k = Some r"
    by (simp add: s1_def)
  from now have "d1 store \<noteq> None" by (auto simp: stored_def split: option.splits)
  then have defined: "committed s1 store \<noteq> None"
    by (simp add: s1_def committed_after_mutation assms(2) with_entry_defined)
  have "map_of (stored (committed s1) store) k = Some r"
    using map_of_with_entry[OF ok1 d1(3) now] by (simp add: s1_def committed_after_mutation assms(2))
  moreover have "db s1 = Some Live" "answers s1 = []"
    using ready_live[OF assms(1)] assms(2) by (simp_all add: s1_def)
  ultimately have "get store k s1 = (Inr r, settle s1)"
    using defined key_of_valid[OF assms(4)] by (simp add: get_plain)
  with put persisted show ?thesis by blast
qed

theorem put_round_trip_witness:
  "\<exists>s1. put ''chats'' (JObj [(''id'', JStr ''c1''), (''participants'', JArr [JStr ''p1'', JStr ''p2''])])
          example
        = (Inr (JObj [(''id'', JStr ''c1''), (''participants'', JArr [JStr ''p1'', JStr ''p2''])]), s1) \<and>
      map_of (stored (idb s1) ''chats'') (JStr ''c1'')
        = Some (JObj [(''id'', JStr ''c1''), (''participants'', JArr [JStr ''p1'', JStr ''p2''])]) \<and>
      get ''chats'' (JStr ''c1'') s1
        = (Inr (JObj [(''id'', JStr ''c1''), (''participants'', JArr [JStr ''p1'', JStr ''p2''])]), settle s1)"
proof -
  have "key_of ''chats'' (JObj [(''id'', JStr ''c1''), (''participants'', JArr [JStr ''p1'', JStr ''p2''])])
      = Key (JStr ''c1'')"
    by (simp add: key_of_def new_store_def createIndex_def createObjectStore_def extract_key_def
        convert_to_key_def)
  moreover have "generator (committed example) \<le> max_generated"
    by (simp add: committed_idle example_def generator_def onupgradeneeded_empty STORES_def
        new_store_def createIndex_def createObjectStore_def max_generated_def)
  moreover have "''chats'' \<in> set STORES" "answers example = []"
    by (simp_all add: STORES_def example_def)
  ultimately show ?thesis
    using put_round_trip[OF ready_example, of "''chats''" _ "JStr ''c1''"] by simp
qed

section \<open>C10: every resolved writing method notifies logs:change\<close>

text \<open>
  Claim C10. In a state where \<^verbatim>\<open>open()\<close> has run and the environment fails nothing, with a
  handler \<open>h\<close> subscribed to \<^verbatim>\<open>logs:change\<close>: whenever \<^verbatim>\<open>put\<close>, \<^verbatim>\<open>bulkPut\<close>, \<^verbatim>\<open>delete\<close>,
  \<^verbatim>\<open>clearAll\<close> or \<^verbatim>\<open>seed\<close> resolves, the handlers called so far are still the first calls of
  the trace, and among the calls added \<open>h\<close> is called for \<^verbatim>\<open>logs:change\<close> once, by
  \<^verbatim>\<open>recordLog\<close>; except that \<^verbatim>\<open>put\<close>, \<^verbatim>\<open>bulkPut\<close> and \<^verbatim>\<open>delete\<close> on the collection \<^verbatim>\<open>logs\<close>
  call it twice, the second time by their own dispatch of \<^verbatim>\<open>logs:change\<close>.
\<close>

theorem every_mutation_notifies_logs_change:
  assumes "ready s" and "answers s = []" and "(''logs:change'', h) \<in> set (listeners s)"
    and "store \<in> set STORES"
  shows "(put store v s = (Inr x, s1) \<longrightarrow>
            take (length (trace s)) (trace s1) = trace s \<and>
            length (filter (\<lambda>d. event d = ''logs:change'' \<and> handler d = h)
                      (drop (length (trace s)) (trace s1))) = (if store = ''logs'' then 2 else 1)) \<and>
         (bulkPut store vs s = (Inr xs, s2) \<longrightarrow>
            take (length (trace s)) (trace s2) = trace s \<and>
            length (filter (\<lambda>d. event d = ''logs:change'' \<and> handler d = h)
                      (drop (length (trace s)) (trace s2))) = (if store = ''logs'' then 2 else 1)) \<and>
         (delete store key s = (Inr u3, s3) \<longrightarrow>
            take (length (trace s)) (trace s3) = trace s \<and>
            length (filter (\<lambda>d. event d = ''logs:change'' \<and> handler d = h)
                      (drop (length (trace s)) (trace s3))) = (if store = ''logs'' then 2 else 1)) \<and>
         (clearAll s = (Inr u4, s4) \<longrightarrow>
            take (length (trace s)) (trace s4) = trace s \<and>
            length (filter (\<lambda>d. event d = ''logs:change'' \<and> handler d = h)
                      (drop (length (trace s)) (trace s4))) = 1) \<and>
         (seed s = (Inr u5, s5) \<longrightarrow>
            take (length (trace s)) (trace s5) = trace s \<and>
            length (filter (\<lambda>d. event d = ''logs:change'' \<and> handler d = h)
                      (drop (length (trace s)) (trace s5))) = 1)"
proof -
  have dist: "distinct (listeners s)" using assms(1) by (simp add: ready_def)
  note count = count_logs_change_after_mutation[OF dist assms(3)]
  have one: "take (length (trace s)) (trace s') = trace s \<and>
      length (filter (\<lambda>d. event d = ''logs:change'' \<and> handler d = h)
                (drop (length (trace s)) (trace s'))) = (if store = ''logs'' then 2 else 1)"
    if "s' = after_mutation s d1 a p [store @ '':change'']" for s' d1 a p
    unfolding that using count(1)[of d1 a p "store @ '':change''"]
    by (simp add: change_is_logs_change)
  have put: "take (length (trace s)) (trace s1) = trace s \<and>
      length (filter (\<lambda>d. event d = ''logs:change'' \<and> handler d = h)
                (drop (length (trace s)) (trace s1))) = (if store = ''logs'' then 2 else 1)"
    if ok: "put store v s = (Inr x, s1)"
  proof -
    obtain d1 where "s1 = after_mutation s d1 ''put''
        (JObj [(''store'', JStr store), (''value'', v)]) [store @ '':change'']"
      using put_inv[OF assms(1,2,4) ok] by blast
    then show ?thesis by (rule one)
  qed
  have bulk: "take (length (trace s)) (trace s2) = trace s \<and>
      length (filter (\<lambda>d. event d = ''logs:change'' \<and> handler d = h)
                (drop (length (trace s)) (trace s2))) = (if store = ''logs'' then 2 else 1)"
    if ok: "bulkPut store vs s = (Inr xs, s2)"
  proof -
    obtain d1 where "s2 = after_mutation s d1 ''bulkPut''
        (JObj [(''store'', JStr store), (''count'', JNum (int (length vs)))]) [store @ '':change'']"
      using bulkPut_inv[OF assms(1,2,4) ok] by blast
    then show ?thesis by (rule one)
  qed
  have del: "take (length (trace s)) (trace s3) = trace s \<and>
      length (filter (\<lambda>d. event d = ''logs:change'' \<and> handler d = h)
                (drop (length (trace s)) (trace s3))) = (if store = ''logs'' then 2 else 1)"
    if ok: "delete store key s = (Inr u3, s3)"
  proof -
    obtain d1 where "s3 = after_mutation s d1 ''delete''
        (JObj [(''store'', JStr store), (''key'', key)]) [store @ '':change'']"
      using delete_inv[OF assms(1,2,4) ok] by blast
    then show ?thesis by (rule one)
  qed
  have clr: "take (length (trace s)) (trace s4) = trace s \<and>
      length (filter (\<lambda>d. event d = ''logs:change'' \<and> handler d = h)
                (drop (length (trace s)) (trace s4))) = 1"
    if "clearAll s = (Inr u4, s4)"
    unfolding clearAll_inv(2)[OF assms(1,2) that]
    using count(1)[of "cleared STORES (committed s)" "''reset''"
        "JObj [(''info'', JStr ''database cleared'')]" "''db:reset''"]
    by simp
  have sd: "take (length (trace s)) (trace s5) = trace s \<and>
      length (filter (\<lambda>d. event d = ''logs:change'' \<and> handler d = h)
                (drop (length (trace s)) (trace s5))) = 1"
    if ok: "seed s = (Inr u5, s5)"
  proof -
    obtain d1 where
      "s5 = after_mutation s d1 ''seed'' (JObj [(''info'', JStr ''Seed database loaded'')]) []"
      using seed_inv[OF assms(1,2) ok] by blast
    then show ?thesis using count(2)[of d1 "''seed''" "JObj [(''info'', JStr ''Seed database loaded'')]"]
      by simp
  qed
  from put bulk del clr sd show ?thesis by blast
qed

theorem every_mutation_notifies_logs_change_witness:
  "length (filter (\<lambda>d. event d = ''logs:change'' \<and> handler d = 2)
     (drop (length (trace example)) (trace (snd (put ''logs'' (JObj [(''id'', JStr ''a'')]) example))))) = 2 \<and>
   length (filter (\<lambda>d. event d = ''logs:change'' \<and> handler d = 2)
     (drop (length (trace example)) (trace (snd (bulkPut ''logs'' [JObj [(''id'', JStr ''a'')]] example))))) = 2 \<and>
   length (filter (\<lambda>d. event d = ''logs:change'' \<and> handler d = 2)
     (drop (length (trace example)) (trace (snd (delete ''logs'' (JStr ''a'') example))))) = 2 \<and>
   length (filter (\<lambda>d. event d = ''logs:change'' \<and> handler d = 2)
     (drop (length (trace example)) (trace (snd (clearAll example))))) = 1 \<and>
   length (filter (\<lambda>d. event d = ''logs:change'' \<and> handler d = 2)
     (drop (length (trace example)) (trace (snd (seed example))))) = 1 \<and>
   length (filter (\<lambda>d. event d = ''logs:change'' \<and> handler d = 2)
     (drop (length (trace example)) (trace (snd (put ''chats'' (JObj [(''id'', JStr ''c1'')]) example))))) = 1"
proof -
  have "fst (put ''logs'' (JObj [(''id'', JStr ''a'')]) example) = Inr (JObj [(''id'', JStr ''a'')])"
    "fst (bulkPut ''logs'' [JObj [(''id'', JStr ''a'')]] example) = Inr [JObj [(''id'', JStr ''a'')]]"
    "fst (delete ''logs'' (JStr ''a'') example) = Inr ()"
    "fst (clearAll example) = Inr ()"
    "fst (seed example) = Inr ()"
    "fst (put ''chats'' (JObj [(''id'', JStr ''c1'')]) example) = Inr (JObj [(''id'', JStr ''c1'')])"
    by code_simp+
  then have ok:
    "put ''logs'' (JObj [(''id'', JStr ''a'')]) example
       = (Inr (JObj [(''id'', JStr ''a'')]), snd (put ''logs'' (JObj [(''id'', JStr ''a'')]) example))"
    "bulkPut ''logs'' [JObj [(''id'', JStr ''a'')]] example
       = (Inr [JObj [(''id'', JStr ''a'')]], snd (bulkPut ''logs'' [JObj [(''id'', JStr ''a'')]] example))"
    "delete ''logs'' (JStr ''a'') example = (Inr (), snd (delete ''logs'' (JStr ''a'') example))"
    "clearAll example = (Inr (), snd (clearAll example))"
    "seed example = (Inr (), snd (seed example))"
    "put ''chats'' (JObj [(''id'', JStr ''c1'')]) example
       = (Inr (JObj [(''id'', JStr ''c1'')]), snd (put ''chats'' (JObj [(''id'', JStr ''c1'')]) example))"
    by (simp_all add: prod_eq_iff)
  have sub: "(''logs:change'', 2) \<in> set (listeners example)" "answers example = []"
    by (simp_all add: example_def)
  have stores: "''logs'' \<in> set STORES" "''chats'' \<in> set STORES" by (simp_all add: STORES_def)
  show ?thesis
    using every_mutation_notifies_logs_change[OF ready_example sub(2,1) stores(1)] ok(1-5)
      every_mutation_notifies_logs_change[OF ready_example sub(2,1) stores(2)] ok(6)
    by simp
qed

end
